theory Spec2Isabelle
  imports Complex_Main "HOL-Library.Monad_Syntax"
begin


section \<open>Conventions of the embedding\<close>

text \<open>
  The Go package \<open>negacyclic\<close> is embedded function by function. A \<open>*big.Int\<close> is an
  \<open>int\<close>, a Go \<open>int\<close> used as a length or a loop counter is a \<open>nat\<close>, a slice is a list.
  A function that mutates its receiver returns the new value. A run-time panic
  (an explicit \<open>panic\<close>, an index out of range, a division by zero inside \<open>math/big\<close>)
  is the result \<open>None\<close>; a normal return is \<open>Some\<close>. The entries of a polynomial are
  taken to be distinct \<open>big.Int\<close> objects, as \<open>NewPolynomial\<close> allocates them.
\<close>

type_synonym Polynomial = "int list"

definition Deg :: "Polynomial \<Rightarrow> nat" where
  "Deg p = length p"

text \<open>Reading \<open>xs[i]\<close>: Go panics when the index is out of range.\<close>

definition index :: "'a list \<Rightarrow> nat \<Rightarrow> 'a option" where
  "index xs i = (if i < length xs then Some (xs ! i) else None)"

text \<open>\<open>big.Int.Mod\<close> is the Euclidean modulus and panics on a zero modulus;
  \<open>big.Int.Quo\<close> truncates towards zero and panics on a zero divisor.\<close>

definition bigMod :: "int \<Rightarrow> int \<Rightarrow> int option" where
  "bigMod x y = (if y = 0 then None else Some (x mod \<bar>y\<bar>))"

definition bigQuo :: "int \<Rightarrow> int \<Rightarrow> int option" where
  "bigQuo x y = (if y = 0 then None else Some (sgn x * sgn y * (\<bar>x\<bar> div \<bar>y\<bar>)))"

text \<open>A counted loop \<open>for i := lo; i < hi; i++ { body }\<close> over a state of type \<open>'s\<close> is
  \<open>for_each [lo..<hi] body\<close>; it stops at the first panic of the body.\<close>

primrec for_each :: "nat list \<Rightarrow> (nat \<Rightarrow> 's \<Rightarrow> 's option) \<Rightarrow> 's \<Rightarrow> 's option" where
  "for_each [] body s = Some s"
| "for_each (i # is) body s = Option.bind (body i s) (for_each is body)"

declare Option.bind_cong [fundef_cong]

section \<open>Helpers of the package whose source is not part of the excerpt\<close>

text \<open>Modelled from the spec: \<open>isPowerOfTwo\<close> is missing from the sources. The spec
  requires "\<open>N\<close> is always a power of two"; the test is modelled as exactly that.\<close>

fun isPowerOfTwo :: "nat \<Rightarrow> bool" where
  "isPowerOfTwo n = (if n < 2 then n = 1 else even n \<and> isPowerOfTwo (n div 2))"

declare isPowerOfTwo.simps [simp del]

text \<open>\<open>big.Int.ProbablyPrime(32)\<close> of the Go library (Miller-Rabin and Baillie-PSW) is
  idealised as the exact primality test: it is exact below \<open>2^64\<close> and its error
  probability above is negligible.\<close>

definition ProbablyPrime :: "int \<Rightarrow> bool" where
  "ProbablyPrime x \<longleftrightarrow> 1 < x \<and> (\<forall>d\<in>{2..<x}. \<not> d dvd x)"

text \<open>Modelled from the spec: \<open>modularInverse\<close> is missing from the sources. The spec
  describes its results as \<open>N^{-1} mod q\<close> and \<open>p^{-1} mod q\<close>: the residue \<open>b\<close> in
  \<open>[0, q)\<close> with \<open>a * b \<equiv> 1 (mod q)\<close>. Without such a residue there is no result.\<close>

definition modularInverse :: "int \<Rightarrow> int \<Rightarrow> int option" where
  "modularInverse a q = List.find (\<lambda>b. a * b mod q = 1) [0..q - 1]"

text \<open>Modelled from the spec: \<open>rootsOfUnityBitReverse\<close> is missing from the sources.
  The spec: "produces the table \<open>T\<close> of length \<open>N\<close> with
  \<open>T[i] = g^{bitrev(i, log2 N)} mod q\<close>".\<close>

fun ilog2 :: "nat \<Rightarrow> nat" where
  "ilog2 n = (if n < 2 then 0 else Suc (ilog2 (n div 2)))"

declare ilog2.simps [simp del]

primrec bitrev :: "nat \<Rightarrow> nat \<Rightarrow> nat" where
  "bitrev 0 i = 0"
| "bitrev (Suc k) i = 2 ^ k * (i mod 2) + bitrev k (i div 2)"

definition rootsOfUnityBitReverse :: "nat \<Rightarrow> int \<Rightarrow> int \<Rightarrow> int list" where
  "rootsOfUnityBitReverse n g q = map (\<lambda>i. g ^ bitrev (ilog2 n) i mod q) [0..<n]"

text \<open>Modelled from the spec: \<open>addSlices\<close> and \<open>subSlices\<close> are missing from the
  sources; Karatsuba uses them on slices of equal length as the element-wise sum and
  difference.\<close>

definition addSlices :: "int list \<Rightarrow> int list \<Rightarrow> int list" where
  "addSlices xs ys = map2 (+) xs ys"

definition subSlices :: "int list \<Rightarrow> int list \<Rightarrow> int list" where
  "subSlices xs ys = map2 (-) xs ys"

text \<open>\<open>FindPrimitiveRootOfUnity(m, q)\<close> is missing from the sources as well and is a
  randomised search. The functions below take it as a parameter \<open>findRoot\<close>; the spec
  gives its contract: the result \<open>g\<close> has \<open>g^m \<equiv> 1\<close> and \<open>g^(m/2) \<notequiv> 1 (mod q)\<close>.\<close>

definition isPrimitiveRootOfUnity :: "nat \<Rightarrow> int \<Rightarrow> int \<Rightarrow> bool" where
  "isPrimitiveRootOfUnity m q g \<longleftrightarrow> g ^ m mod q = 1 \<and> g ^ (m div 2) mod q \<noteq> 1"

section \<open>Polynomial container (polynomial.go)\<close>

definition NewPolynomial :: "nat \<Rightarrow> Polynomial option" where
  "NewPolynomial degree =
     (if \<not> isPowerOfTwo degree then None else Some (replicate degree 0))"

text \<open>\<open>symmetricModulus\<close> takes a \<open>*big.Int\<close> that may be \<open>nil\<close> (here \<open>None\<close>).
  The method \<open>Polynomial.Mod\<close> is \<open>Polynomial_Mod\<close>, since \<open>Mod\<close> is also a field of the
  multiplier; the field \<open>N\<close> of the CRT and integer multipliers is \<open>crtN\<close> and \<open>zN\<close>.\<close>

definition symmetricModulus :: "int option \<Rightarrow> Polynomial \<Rightarrow> Polynomial option" where
  "symmetricModulus qo p =
     (case qo of
        None \<Rightarrow> Some p
      | Some q \<Rightarrow> do {
          halfMod \<leftarrow> bigQuo q 2;
          let negHalfMod = - halfMod;
          for_each [0..<length p] (\<lambda>i p. do {
              val \<leftarrow> index p i;
              val \<leftarrow> bigMod val q;
              Some (if val > halfMod then p[i := val - q]
                    else if val < negHalfMod then p[i := val + q]
                    else p[i := val]) }) p })"

definition Polynomial_Mod :: "Polynomial \<Rightarrow> int option \<Rightarrow> Polynomial option" where
  "Polynomial_Mod p q = symmetricModulus q p"

text \<open>\<open>ScaleNearest\<close> computes in \<open>big.Float\<close>. A \<open>big.Float\<close> value is a binary
  floating-point number with a mantissa of \<open>prec\<close> bits; the model keeps the rational it
  denotes and tracks the precision of each variable. Every operation yields the exact
  result rounded to the precision of its receiver, to the nearest representable number
  with ties to the even mantissa (the default mode \<open>ToNearestEven\<close>); \<open>rnd prec x\<close> is that
  rounding. The exponent range of \<open>big.Float\<close> (32 bits) is not modelled.\<close>

function bitLen :: "int \<Rightarrow> nat" where
  "bitLen n = (if n \<le> 0 then 0 else Suc (bitLen (n div 2)))"
  by pat_completeness auto
termination
  by (relation "measure nat") auto

declare bitLen.simps [simp del]

definition pow2 :: "int \<Rightarrow> rat" where
  "pow2 k = (if 0 \<le> k then 2 ^ nat k else 1 / 2 ^ nat (- k))"

text \<open>The binary exponent \<open>e\<close> of a non-zero \<open>x\<close>: \<open>2 ^ (e - 1) \<le> |x| < 2 ^ e\<close>.\<close>

definition expo :: "rat \<Rightarrow> int" where
  "expo x = (let (a, b) = quotient_of \<bar>x\<bar>;
                 e = int (bitLen a) - int (bitLen b)
             in if \<bar>x\<bar> < pow2 e then e else e + 1)"

definition roundHalfEven :: "rat \<Rightarrow> int" where
  "roundHalfEven x = (let f = \<lfloor>x\<rfloor>; d = x - of_int f in
     if d < 1 / 2 then f else if 1 / 2 < d then f + 1 else if even f then f else f + 1)"

definition rnd :: "nat \<Rightarrow> rat \<Rightarrow> rat" where
  "rnd prec x = (if x = 0 then 0 else
     let u = pow2 (expo x - int prec) in of_int (roundHalfEven (x / u)) * u)"

text \<open>\<open>Float.Int\<close> truncates towards zero.\<close>

definition floatInt :: "rat \<Rightarrow> int" where
  "floatInt x = (if 0 \<le> x then \<lfloor>x\<rfloor> else \<lceil>x\<rceil>)"

text \<open>\<open>aux\<close>, \<open>denom\<close> and \<open>quo\<close> are allocated once, with precision 0. \<open>SetInt\<close> on a
  receiver of precision 0 sets the precision to \<open>max(BitLen, 64)\<close>, \<open>Quo\<close> and \<open>Add\<close> to
  the larger precision of their operands; a precision that has been set stays. So the
  loop carries the precisions of \<open>aux\<close> and \<open>quo\<close> from one coefficient to the next.\<close>

definition ScaleNearest :: "Polynomial \<Rightarrow> int \<Rightarrow> Polynomial option" where
  "ScaleNearest p scale =
     (if scale = 0 then None
      else do {
        let denomPrec = max (bitLen \<bar>scale\<bar>) 64;
        let denom = rnd denomPrec (of_int scale);
        result \<leftarrow> NewPolynomial (Deg p);
        (result, auxPrec, quoPrec) \<leftarrow> for_each [0..<length p] (\<lambda>i (result, auxPrec, quoPrec). do {
            coeff \<leftarrow> index p i;
            let auxPrec = (if auxPrec = 0 then max (bitLen \<bar>coeff\<bar>) 64 else auxPrec);
            let aux = \<bar>rnd auxPrec (of_int coeff)\<bar>;
            let quoPrec = (if quoPrec = 0 then max auxPrec denomPrec else quoPrec);
            let quo = rnd quoPrec (aux / denom);
            let aux = rnd auxPrec (quo + 1 / 2);
            let r = floatInt aux;
            Some (result[i := (if sgn coeff = - 1 then - r else r)], auxPrec, quoPrec) }) (result, 0, 0);
        Some result })"

text \<open>The builtin \<open>copy(dst, src)\<close> overwrites the first \<open>min(len(dst), len(src))\<close>
  elements of \<open>dst\<close>; slicing beyond the length of a slice panics.\<close>

definition copy :: "'a list \<Rightarrow> 'a list \<Rightarrow> 'a list" where
  "copy dst src = take (length dst) src @ drop (length src) dst"

function karatsubaRec :: "int list \<Rightarrow> int list \<Rightarrow> int list option" where
  "karatsubaRec x y =
     (if length x \<noteq> length y then None
      else if length x = 1 then Some [x ! 0 * y ! 0]
      else if \<not> isPowerOfTwo (length x) then None
      else do {
        let l = length x;
        let xL = take (l div 2) x;
        let xR = drop (l div 2) x;
        let yL = take (l div 2) y;
        let yR = drop (l div 2) y;
        z0 \<leftarrow> karatsubaRec xL yL;
        z1 \<leftarrow> karatsubaRec (addSlices xL xR) (addSlices yL yR);
        z2 \<leftarrow> karatsubaRec xR yR;
        let crossTerm = subSlices (subSlices z1 z2) z0;
        if length crossTerm = 1 then Some (z0 @ crossTerm @ z2 @ [0])
        else if length crossTerm < l div 2 then None
        else do {
          let crossL = replicate l 0;
          let crossR = replicate l 0;
          let crossL = take (l div 2) crossL @ copy (drop (l div 2) crossL) (take (l div 2) crossTerm);
          let crossR = copy (take (l div 2) crossR) (drop (l div 2) crossTerm) @ drop (l div 2) crossR;
          Some (addSlices z0 crossL @ addSlices z2 crossR) } })"
  by pat_completeness auto
termination
proof (relation "measure (\<lambda>(x, y). length x)")
  show "wf (measure (\<lambda>(x, y). length x))"
    by simp
next
  fix x y :: "int list" and l xL xR yL yR
  assume h: "\<not> length x \<noteq> length y" "length x \<noteq> 1" "\<not> \<not> isPowerOfTwo (length x)"
    and l: "l = length x" and xL: "xL = take (l div 2) x" and xR: "xR = drop (l div 2) x"
    and yL: "yL = take (l div 2) y"
  from h have "isPowerOfTwo (length x)"
    by simp
  then have "(if length x < 2 then length x = 1 else even (length x) \<and> isPowerOfTwo (length x div 2))"
    by (subst (asm) isPowerOfTwo.simps)
  with h have two: "2 \<le> length x"
    by (cases "length x < 2") simp_all
  from two l xL show "((xL, yL), x, y) \<in> measure (\<lambda>(x, y). length x)"
    by simp
  from two l xL xR show "((addSlices xL xR, addSlices yL yR), x, y) \<in> measure (\<lambda>(x, y). length x)"
    by (simp add: addSlices_def)
  from two l xR show "((xR, yR), x, y) \<in> measure (\<lambda>(x, y). length x)"
    by simp
qed

definition Karatsuba :: "Polynomial \<Rightarrow> Polynomial \<Rightarrow> Polynomial option" where
  "Karatsuba p q =
     (if \<not> isPowerOfTwo (Deg p) \<or> \<not> isPowerOfTwo (Deg q) then None
      else do {
        karat \<leftarrow> karatsubaRec p q;
        karat \<leftarrow> for_each [0..<Deg p] (\<lambda>i karat. do {
            a \<leftarrow> index karat i;
            b \<leftarrow> index karat (i + Deg p);
            Some (karat[i := a - b]) }) karat;
        if Deg p \<le> length karat then Some (take (Deg p) karat) else None })"

text \<open>\<open>MulSimple\<close> on two vectors (\<open>cycMulNaiveTerVecTerVec\<close>) is the package's own
  schoolbook negacyclic product; the quadratic reference product of the spec,
  "\<open>out[i+j] += x[i]*y[j]\<close> for \<open>i+j < N\<close> and \<open>out[i+j-N] -= x[i]*y[j]\<close> otherwise",
  is the same double loop over arbitrary-precision integers.\<close>

definition reference_step :: "Polynomial \<Rightarrow> Polynomial \<Rightarrow> nat \<times> nat \<Rightarrow> int list \<Rightarrow> int list" where
  "reference_step x y ij out =
     (let i = fst ij; j = snd ij; dimen = length x
      in if i + j < dimen then out[i + j := out ! (i + j) + x ! i * y ! j]
         else out[i + j - dimen := out ! (i + j - dimen) - x ! i * y ! j])"

definition reference_convolution :: "Polynomial \<Rightarrow> Polynomial \<Rightarrow> int list" where
  "reference_convolution x y =
     fold (reference_step x y) (List.product [0..<length x] [0..<length y])
       (replicate (length x) 0)"

section \<open>Number-theoretic transform (ntt.go)\<close>

record Multiplier =
  N :: nat
  Mod :: int
  nInvQ :: int
  rootsBitReverse :: "int list"
  invRootsBitReverse :: "int list"

text \<open>The body of the innermost loop of \<open>NTT\<close> (Cooley-Tukey butterfly).\<close>

definition ntt_butterfly :: "int \<Rightarrow> int \<Rightarrow> nat \<Rightarrow> nat \<Rightarrow> Polynomial \<Rightarrow> Polynomial option" where
  "ntt_butterfly q s t j a = do {
     u \<leftarrow> index a j;
     w \<leftarrow> index a (j + t);
     let v = w * s;
     x \<leftarrow> bigMod (u + v) q;
     y \<leftarrow> bigMod (u - v) q;
     Some (a[j := x, j + t := y]) }"

text \<open>The loop \<open>for m := 1; m < n; m = 2 * m\<close> with its loop variables \<open>m\<close> and \<open>t\<close>.
  The counter \<open>m\<close> starts at 1, so the guard \<open>0 < m\<close> always holds in the program; it
  makes the recursion well-founded for every argument.\<close>

function ntt_loop :: "nat \<Rightarrow> int \<Rightarrow> int list \<Rightarrow> nat \<Rightarrow> nat \<Rightarrow> Polynomial \<Rightarrow> Polynomial option" where
  "ntt_loop n q roots m t a =
     (if 0 < m \<and> m < n then do {
        let t = t div 2;
        a \<leftarrow> for_each [0..<m] (\<lambda>i a. do {
               let j1 = 2 * i * t;
               s \<leftarrow> index roots (m + i);
               for_each [j1..<j1 + t] (ntt_butterfly q s t) a }) a;
        ntt_loop n q roots (2 * m) t a }
      else Some a)"
  by pat_completeness auto
termination
  by (relation "measure (\<lambda>(n, q, roots, m, t, a). n - m)") auto

definition NTT :: "Multiplier \<Rightarrow> Polynomial \<Rightarrow> Polynomial option" where
  "NTT mul a = ntt_loop (N mul) (Mod mul) (rootsBitReverse mul) 1 (N mul) a"

text \<open>The body of the innermost loop of \<open>INTT\<close> (Gentleman-Sande butterfly).\<close>

definition intt_butterfly :: "int \<Rightarrow> int \<Rightarrow> nat \<Rightarrow> nat \<Rightarrow> Polynomial \<Rightarrow> Polynomial option" where
  "intt_butterfly q s t j a = do {
     u \<leftarrow> index a j;
     v \<leftarrow> index a (j + t);
     x \<leftarrow> bigMod (u + v) q;
     y \<leftarrow> bigMod ((u - v) * s) q;
     Some (a[j := x, j + t := y]) }"

text \<open>The loop \<open>for m := n; m > 1; m /= 2\<close>; the state of its middle loop is the pair
  of \<open>j1\<close> and the coefficients.\<close>

function intt_loop :: "int \<Rightarrow> int list \<Rightarrow> nat \<Rightarrow> nat \<Rightarrow> Polynomial \<Rightarrow> Polynomial option" where
  "intt_loop q rootsInv m t a =
     (if 1 < m then do {
        let h = m div 2;
        (j1, a) \<leftarrow> for_each [0..<h] (\<lambda>i (j1, a). do {
               s \<leftarrow> index rootsInv (h + i);
               a \<leftarrow> for_each [j1..<j1 + t] (intt_butterfly q s t) a;
               Some (j1 + 2 * t, a) }) (0, a);
        intt_loop q rootsInv (m div 2) (t * 2) a }
      else Some a)"
  by pat_completeness auto
termination
  by (relation "measure (\<lambda>(q, rootsInv, m, t, a). m)") auto

definition INTT :: "Multiplier \<Rightarrow> Polynomial \<Rightarrow> Polynomial option" where
  "INTT mul a = do {
     a \<leftarrow> intt_loop (Mod mul) (invRootsBitReverse mul) (N mul) 1 a;
     for_each [0..<N mul] (\<lambda>j a. do {
         c \<leftarrow> index a j;
         x \<leftarrow> bigMod (c * nInvQ mul) (Mod mul);
         Some (a[j := x]) }) a }"

definition Hadamard :: "Multiplier \<Rightarrow> Polynomial \<Rightarrow> Polynomial \<Rightarrow> Polynomial option" where
  "Hadamard mul a b =
     (if Deg a \<noteq> Deg b then None
      else do {
        c \<leftarrow> NewPolynomial (Deg a);
        for_each [0..<length a] (\<lambda>i c. do {
            x \<leftarrow> index a i;
            y \<leftarrow> index b i;
            z \<leftarrow> bigMod (x * y) (Mod mul);
            Some (c[i := z]) }) c })"

section \<open>Prime-field multiplier (multiplier.go)\<close>

definition NewMultiplier :: "(nat \<Rightarrow> int \<Rightarrow> int) \<Rightarrow> nat \<Rightarrow> int \<Rightarrow> Multiplier option" where
  "NewMultiplier findRoot n q =
     (if \<not> isPowerOfTwo n then None
      else if \<not> ProbablyPrime q then None
      else do {
        one \<leftarrow> bigMod q (int (2 * n));
        if one \<noteq> 1 then None
        else do {
          nInv \<leftarrow> modularInverse (int n) q;
          let g = findRoot (2 * n) q;
          gInv \<leftarrow> modularInverse g q;
          Some \<lparr> N = n, Mod = q, nInvQ = nInv,
                 rootsBitReverse = rootsOfUnityBitReverse n g q,
                 invRootsBitReverse = rootsOfUnityBitReverse n gInv q \<rparr> } })"

definition Mul :: "Multiplier \<Rightarrow> Polynomial \<Rightarrow> Polynomial \<Rightarrow> Polynomial option" where
  "Mul mul x y =
     (if Deg x \<noteq> Deg y then None
      else do {
        let n = Deg x;
        a \<leftarrow> NewPolynomial n;
        b \<leftarrow> NewPolynomial n;
        (a, b) \<leftarrow> for_each [0..<n] (\<lambda>i (a, b). do {
            xi \<leftarrow> index x i;
            yi \<leftarrow> index y i;
            Some (a[i := xi], b[i := yi]) }) (a, b);
        a \<leftarrow> NTT mul a;
        b \<leftarrow> NTT mul b;
        c \<leftarrow> Hadamard mul a b;
        c \<leftarrow> INTT mul c;
        for_each [0..<length c] (\<lambda>i c. do {
            coeff \<leftarrow> index c i;
            coeff \<leftarrow> bigMod coeff (Mod mul);
            Some (c[i := coeff]) }) c })"

section \<open>CRT multiplier (crt_multiplier.go)\<close>

record CRTMultiplier =
  PQ :: int
  crtN :: nat
  pInvQ :: int
  multiplierP :: Multiplier
  multiplierQ :: Multiplier

definition NewCRTMultiplier :: "(nat \<Rightarrow> int \<Rightarrow> int) \<Rightarrow> nat \<Rightarrow> int \<Rightarrow> int \<Rightarrow> CRTMultiplier option" where
  "NewCRTMultiplier findRoot n p q =
     (if \<not> isPowerOfTwo n then None
      else if \<not> ProbablyPrime p \<or> \<not> ProbablyPrime q \<or> p = q then None
      else do {
        inv \<leftarrow> modularInverse p q;
        mP \<leftarrow> NewMultiplier findRoot n p;
        mQ \<leftarrow> NewMultiplier findRoot n q;
        Some \<lparr> PQ = p * q, crtN = n, pInvQ = inv, multiplierP = mP, multiplierQ = mQ \<rparr> })"

definition CRTMultiplier_Mul :: "CRTMultiplier \<Rightarrow> Polynomial \<Rightarrow> Polynomial \<Rightarrow> Polynomial option" where
  "CRTMultiplier_Mul m x y = do {
     a \<leftarrow> Mul (multiplierP m) x y;
     b \<leftarrow> Mul (multiplierQ m) x y;
     let p = Mod (multiplierP m);
     z \<leftarrow> NewPolynomial (Deg x);
     for_each [0..<length x] (\<lambda>i z. do {
         bi \<leftarrow> index b i;
         ai \<leftarrow> index a i;
         Some (z[i := (bi - ai) * pInvQ m * p + ai]) }) z }"

section \<open>Integer multiplier (z_multiplier.go)\<close>

record ZMultiplier =
  zN :: nat

definition NewZMultiplier :: "nat \<Rightarrow> ZMultiplier option" where
  "NewZMultiplier n = (if \<not> isPowerOfTwo n then None else Some \<lparr> zN = n \<rparr>)"

definition normInfinite :: "Polynomial \<Rightarrow> int" where
  "normInfinite pol = fold (\<lambda>val norm. if \<bar>norm\<bar> < \<bar>val\<bar> then \<bar>val\<bar> else norm) pol 0"

text \<open>The loop \<open>for !prime.ProbablyPrime(32) { prime += 2N }\<close> has no bound in the
  program: not returning is the value \<open>None\<close>.\<close>

partial_function (option) nextPrime :: "int \<Rightarrow> int \<Rightarrow> int option" where
  "nextPrime step prime =
     (if ProbablyPrime prime then Some prime else nextPrime step (prime + step))"

declare nextPrime.simps [code]

definition ZMultiplier_Mul :: "(nat \<Rightarrow> int \<Rightarrow> int) \<Rightarrow> ZMultiplier \<Rightarrow> Polynomial \<Rightarrow> Polynomial \<Rightarrow> Polynomial option" where
  "ZMultiplier_Mul findRoot m x y =
     (if Deg x \<noteq> Deg y then None
      else if Deg x \<noteq> zN m then None
      else do {
        let prime = int (2 * zN m) * normInfinite x * normInfinite y + 1;
        prime \<leftarrow> nextPrime (int (2 * zN m)) prime;
        modM \<leftarrow> NewMultiplier findRoot (zN m) prime;
        pol \<leftarrow> Mul modM x y;
        Polynomial_Mod pol (Some prime) })"

section \<open>Sampling (sample.go)\<close>

text \<open>\<open>HWT\<close> returns a pair of a slice and an error, or panics. The entropy source is a
  tape of reads: \<open>None\<close> is a failed read, \<open>Some r\<close> a successful one, from which
  \<open>rand.Int(rand.Reader, max)\<close> yields \<open>r mod max\<close>. The sampling loop has no bound in
  the program; on a finite tape, running out of reads is the value \<open>None\<close>.\<close>

datatype hwt_result = Returned "int list option" "string option" | Panicked string

fun hwt_loop :: "nat \<Rightarrow> nat \<Rightarrow> nat \<Rightarrow> nat option list \<Rightarrow> int list \<Rightarrow> hwt_result option" where
  "hwt_loop dimen hamming i tape vec =
     (if i < hamming then
        (case tape of
           [] \<Rightarrow> None
         | None # _ \<Rightarrow> Some (Panicked ''fatal entropy error:'')
         | Some r # tape1 \<Rightarrow>
             if dimen = 0 then Some (Panicked ''crypto/rand: argument to Int is <= 0'')
             else let index = r mod dimen in
               if vec ! index \<noteq> 0 then hwt_loop dimen hamming i tape1 vec
               else
                 (case tape1 of
                    [] \<Rightarrow> None
                  | None # _ \<Rightarrow> Some (Panicked ''fatal entropy error:'')
                  | Some c # tape2 \<Rightarrow>
                      let coin = c mod 2;
                          vec = (if coin = 0 then vec[index := 1] else vec);
                          vec = vec[index := - 1]
                      in hwt_loop dimen hamming (i + 1) tape2 vec))
      else Some (Returned (Some vec) None))"

definition HWT :: "int \<Rightarrow> int \<Rightarrow> nat option list \<Rightarrow> hwt_result option" where
  "HWT dimen hamming tape =
     (if hamming > dimen then Some (Returned None (Some ''impossible hamming weight''))
      else if dimen < 0 then Some (Panicked ''makeslice: len out of range'')
      else hwt_loop (nat dimen) (nat hamming) 0 tape (replicate (nat dimen) 0))"

definition HammingWeight :: "int list \<Rightarrow> nat" where
  "HammingWeight v = fold (\<lambda>x h. if x \<noteq> 0 then h + 1 else h) v 0"

section \<open>Auxiliary notions of the proofs\<close>

text \<open>One butterfly pass over the pairs \<open>(j, j + t)\<close> for \<open>j1 \<le> j < j1 + c\<close>.\<close>

definition bf_block :: "(int \<Rightarrow> int \<Rightarrow> int) \<Rightarrow> (int \<Rightarrow> int \<Rightarrow> int) \<Rightarrow> nat \<Rightarrow> nat \<Rightarrow> nat \<Rightarrow> int list \<Rightarrow> int list" where
  "bf_block F G t j1 c a =
     map (\<lambda>K. if j1 \<le> K \<and> K < j1 + c then F (a ! K) (a ! (K + t))
               else if j1 + t \<le> K \<and> K < j1 + t + c then G (a ! (K - t)) (a ! K)
               else a ! K) [0..<length a]"

text \<open>The butterflies of the first \<open>i0\<close> blocks of length \<open>2 * t\<close>.\<close>

definition bf_stage :: "(nat \<Rightarrow> int \<Rightarrow> int \<Rightarrow> int) \<Rightarrow> (nat \<Rightarrow> int \<Rightarrow> int \<Rightarrow> int) \<Rightarrow> nat \<Rightarrow> nat \<Rightarrow> int list \<Rightarrow> int list" where
  "bf_stage F G t i0 a =
     map (\<lambda>K. if K < 2 * i0 * t
               then (if K mod (2 * t) < t then F (K div (2 * t)) (a ! K) (a ! (K + t))
                     else G (K div (2 * t)) (a ! (K - t)) (a ! K))
               else a ! K) [0..<length a]"

definition ct_stage :: "int \<Rightarrow> int list \<Rightarrow> nat \<Rightarrow> nat \<Rightarrow> int list \<Rightarrow> int list" where
  "ct_stage q roots m t a =
     bf_stage (\<lambda>i u v. (u + v * roots ! (m + i)) mod q) (\<lambda>i u v. (u - v * roots ! (m + i)) mod q) t m a"

definition gs_stage :: "int \<Rightarrow> int list \<Rightarrow> nat \<Rightarrow> nat \<Rightarrow> int list \<Rightarrow> int list" where
  "gs_stage q rootsInv h t a =
     bf_stage (\<lambda>i u v. (u + v) mod q) (\<lambda>i u v. ((u - v) * rootsInv ! (h + i)) mod q) t h a"

primrec ntt_stages :: "int \<Rightarrow> int list \<Rightarrow> nat \<Rightarrow> nat \<Rightarrow> int list \<Rightarrow> int list" where
  "ntt_stages q roots m 0 a = a"
| "ntt_stages q roots m (Suc d) a = ntt_stages q roots (2 * m) d (ct_stage q roots m (2 ^ d) a)"

primrec intt_stages :: "int \<Rightarrow> int list \<Rightarrow> nat \<Rightarrow> nat \<Rightarrow> int list \<Rightarrow> int list" where
  "intt_stages q rootsInv t 0 a = a"
| "intt_stages q rootsInv t (Suc e) a = intt_stages q rootsInv (2 * t) e (gs_stage q rootsInv (2 ^ e) t a)"

definition eqm :: "int \<Rightarrow> int list \<Rightarrow> int list \<Rightarrow> bool" where
  "eqm q a b \<longleftrightarrow> length a = length b \<and> (\<forall>i<length a. a ! i mod q = b ! i mod q)"

definition wf_multiplier :: "Multiplier \<Rightarrow> nat \<Rightarrow> bool" where
  "wf_multiplier mul k \<longleftrightarrow>
     N mul = 2 ^ k \<and> 1 < Mod mul \<and>
     length (rootsBitReverse mul) = 2 ^ k \<and> length (invRootsBitReverse mul) = 2 ^ k \<and>
     2 ^ k * nInvQ mul mod Mod mul = 1 \<and>
     (\<forall>j. 1 \<le> j \<and> j < 2 ^ k \<longrightarrow>
        rootsBitReverse mul ! j * invRootsBitReverse mul ! j mod Mod mul = 1 mod Mod mul)"

text \<open>The constant \<open>c\<close> of the node \<open>j\<close> of the transform tree: the block of node \<open>j\<close>
  holds the input reduced modulo \<open>X^t - c\<close>. The root is node 1 with \<open>X^n + 1\<close>; the
  children of node \<open>j\<close> are \<open>2j\<close> and \<open>2j+1\<close>, with the constants \<open>roots[j]\<close> and
  \<open>- roots[j]\<close>.\<close>

definition cmod :: "int list \<Rightarrow> nat \<Rightarrow> int" where
  "cmod roots j = (if j = 1 then - 1 else if even j then roots ! (j div 2) else - roots ! (j div 2))"

definition table_ok :: "int \<Rightarrow> nat \<Rightarrow> int list \<Rightarrow> bool" where
  "table_ok q n roots \<longleftrightarrow> (\<forall>j. 1 \<le> j \<and> j < n \<longrightarrow> roots ! j * roots ! j mod q = cmod roots j mod q)"

definition ntt_inv :: "int \<Rightarrow> int list \<Rightarrow> int list \<Rightarrow> nat \<Rightarrow> nat \<Rightarrow> int list \<Rightarrow> bool" where
  "ntt_inv q roots a m t b \<longleftrightarrow>
     (\<forall>i<m. \<forall>k<t. b ! (i * t + k) mod q = (\<Sum>l<m. a ! (k + l * t) * cmod roots (m + i) ^ l) mod q)"

text \<open>The negacyclic product in closed form, and the value of a polynomial at a point.\<close>

definition negacyclic :: "int list \<Rightarrow> int list \<Rightarrow> nat \<Rightarrow> int" where
  "negacyclic x y k =
     (\<Sum>i<length x. \<Sum>j<length y.
        if i + j = k then x ! i * y ! j
        else if i + j = k + length x then - (x ! i * y ! j) else 0)"

definition peval :: "int list \<Rightarrow> int \<Rightarrow> int" where
  "peval a w = (\<Sum>l<length a. a ! l * w ^ l)"

text \<open>The contents of a multiplier that \<open>Mul\<close> relies on.\<close>

definition ntt_multiplier :: "Multiplier \<Rightarrow> nat \<Rightarrow> bool" where
  "ntt_multiplier mul k \<longleftrightarrow> wf_multiplier mul k \<and> table_ok (Mod mul) (2 ^ k) (rootsBitReverse mul)"

text \<open>The symmetric representative modulo a positive \<open>q\<close>.\<close>

definition symrep :: "int \<Rightarrow> int \<Rightarrow> int" where
  "symrep q v = (if v mod q > q div 2 then v mod q - q else v mod q)"

text \<open>The recombination step of \<open>CRTMultiplier.Mul\<close> on one coefficient.\<close>

definition garner :: "int \<Rightarrow> int \<Rightarrow> int \<Rightarrow> int \<Rightarrow> int" where
  "garner p pInv a b = (b - a) * pInv * p + a"

text \<open>The rounding that the spec asks of \<open>ScaleNearest\<close>, in the spec's words: \<open>round(c / d)\<close>
  with halves rounded away from zero.\<close>

definition roundHalfAwayFromZero :: "rat \<Rightarrow> int" where
  "roundHalfAwayFromZero x = (if 0 \<le> x then \<lfloor>x + 1 / 2\<rfloor> else - \<lfloor>- x + 1 / 2\<rfloor>)"

text \<open>A coefficient of the full (acyclic) convolution.\<close>

definition conv :: "int list \<Rightarrow> int list \<Rightarrow> nat \<Rightarrow> int" where
  "conv x y k = (\<Sum>i<length x. \<Sum>j<length y. if i + j = k then x ! i * y ! j else 0)"

text \<open>The loop invariant of \<open>HWT\<close>: after \<open>i\<close> rounds the vector has \<open>i\<close> non-zero
  entries, all of them \<open>-1\<close>.\<close>

definition hwt_inv :: "nat \<Rightarrow> nat \<Rightarrow> int list \<Rightarrow> bool" where
  "hwt_inv dimen i vec \<longleftrightarrow>
     length vec = dimen \<and> length (filter (\<lambda>x. x \<noteq> 0) vec) = i \<and> (\<forall>x\<in>set vec. x = 0 \<or> x = - 1)"

text \<open>An entropy tape of fresh draws: each index is followed by its coin.\<close>

definition draws :: "nat list \<Rightarrow> nat list \<Rightarrow> nat option list" where
  "draws idx coins = concat (map2 (\<lambda>k c. [Some k, Some c]) idx coins)"

section \<open>Loops as functions on lists\<close>

lemma index_eq [simp]: "i < length xs \<Longrightarrow> index xs i = Some (xs ! i)"
  by (simp add: index_def)

lemma bigMod_eq [simp]: "0 < q \<Longrightarrow> bigMod x q = Some (x mod q)"
  by (simp add: bigMod_def)

lemma for_each_append:
  "for_each (xs @ ys) body s = Option.bind (for_each xs body s) (for_each ys body)"
proof (induction xs arbitrary: s)
  case Nil
  show ?case by simp
next
  case (Cons x xs)
  show ?case
    by (cases "body x s") (simp_all add: Cons.IH)
qed

lemma for_each_snoc:
  "for_each (xs @ [x]) body s = Option.bind (for_each xs body s) (body x)"
proof -
  have "for_each [x] body s' = body x s'" for s'
    by (cases "body x s'") simp_all
  then have "for_each [x] body = body x"
    by (rule ext)
  then show ?thesis
    by (simp add: for_each_append)
qed

lemma for_each_upt_Suc:
  "for_each [lo..<lo + Suc c] body s = Option.bind (for_each [lo..<lo + c] body s) (body (lo + c))"
  using for_each_snoc [of "[lo..<lo + c]" "lo + c" body s] by simp

lemma for_each_upt_Suc0:
  "for_each [0..<Suc c] body s = Option.bind (for_each [0..<c] body s) (body c)"
  using for_each_upt_Suc [of 0 c body s] by simp

lemma length_bf_block [simp]: "length (bf_block F G t j1 c a) = length a"
  by (simp add: bf_block_def)

lemma length_bf_stage [simp]: "length (bf_stage F G t i0 a) = length a"
  by (simp add: bf_stage_def)

lemma bf_inner_loop:
  assumes body: "\<And>j b. j + t < length b \<Longrightarrow>
       body j b = Some (b[j := F (b ! j) (b ! (j + t)), j + t := G (b ! j) (b ! (j + t))])"
    and "c \<le> t" "j1 + 2 * t \<le> length a"
  shows "for_each [j1..<j1 + c] body a = Some (bf_block F G t j1 c a)"
  using assms(2)
proof (induction c)
  case 0
  show ?case
    by (simp, intro nth_equalityI) (simp_all add: bf_block_def)
next
  case (Suc c)
  then have c: "c < t" and IH: "for_each [j1..<j1 + c] body a = Some (bf_block F G t j1 c a)"
    by simp_all
  let ?b = "bf_block F G t j1 c a"
  let ?x = "F (a ! (j1 + c)) (a ! (j1 + c + t))"
  let ?y = "G (a ! (j1 + c)) (a ! (j1 + c + t))"
  have in_range: "j1 + c + t < length ?b"
    using c assms(3) by simp
  have bj: "?b ! (j1 + c) = a ! (j1 + c)" and bjt: "?b ! (j1 + c + t) = a ! (j1 + c + t)"
    using c assms(3) by (simp_all add: bf_block_def)
  have "?b[j1 + c := ?x, j1 + c + t := ?y] = bf_block F G t j1 (Suc c) a"
  proof (intro nth_equalityI)
    show "length (?b[j1 + c := ?x, j1 + c + t := ?y]) = length (bf_block F G t j1 (Suc c) a)"
      by simp
  next
    fix K
    assume "K < length (?b[j1 + c := ?x, j1 + c + t := ?y])"
    then have K: "K < length a"
      by simp
    consider "K = j1 + c" | "K = j1 + c + t" | "K \<noteq> j1 + c" "K \<noteq> j1 + c + t"
      by blast
    then show "?b[j1 + c := ?x, j1 + c + t := ?y] ! K = bf_block F G t j1 (Suc c) a ! K"
    proof cases
      case 1
      with K c show ?thesis
        by (simp add: bf_block_def)
    next
      case 2
      with K c show ?thesis
        by (simp add: bf_block_def)
    next
      case 3
      then have "(?b[j1 + c := ?x, j1 + c + t := ?y]) ! K = ?b ! K"
        by simp
      also have "\<dots> = bf_block F G t j1 (Suc c) a ! K"
        using 3 K c by (simp add: bf_block_def)
      finally show ?thesis .
    qed
  qed
  then have "body (j1 + c) ?b = Some (bf_block F G t j1 (Suc c) a)"
    using body [OF in_range] bj bjt by simp
  then show ?case
    by (simp only: for_each_upt_Suc IH Option.bind.simps)
qed

lemma block_div_mod:
  assumes "0 < t" "2 * i * t \<le> K" "K < 2 * i * t + 2 * t"
  shows "K div (2 * t) = (i::nat)" "K mod (2 * t) = K - 2 * i * t"
proof -
  have a: "(2 * t) * i \<le> K" and b: "K < (2 * t) * Suc i"
    using assms by (simp_all add: algebra_simps)
  show d: "K div (2 * t) = i"
    using a b by (rule div_nat_eqI)
  show "K mod (2 * t) = K - 2 * i * t"
    using d by (metis minus_mult_div_eq_mod mult.assoc mult.commute)
qed

lemma bf_stage_nth_rest:
  "2 * i0 * t \<le> K \<Longrightarrow> K < length a \<Longrightarrow> bf_stage F G t i0 a ! K = a ! K"
  by (simp add: bf_stage_def)

lemma bf_stage_nth_done:
  "K < 2 * i0 * t \<Longrightarrow> K < length a \<Longrightarrow> bf_stage F G t i0 a ! K =
     (if K mod (2 * t) < t then F (K div (2 * t)) (a ! K) (a ! (K + t))
      else G (K div (2 * t)) (a ! (K - t)) (a ! K))"
  by (simp add: bf_stage_def)

lemma bf_block_nth:
  "K < length a \<Longrightarrow> bf_block F G t j1 c a ! K =
     (if j1 \<le> K \<and> K < j1 + c then F (a ! K) (a ! (K + t))
      else if j1 + t \<le> K \<and> K < j1 + t + c then G (a ! (K - t)) (a ! K)
      else a ! K)"
  by (simp add: bf_block_def)

lemma bf_stage_step:
  assumes "length a = 2 * m * t" "i0 < m" "0 < t"
  shows "bf_block (F i0) (G i0) t (2 * i0 * t) t (bf_stage F G t i0 a) = bf_stage F G t (Suc i0) a"
proof (intro nth_equalityI)
  show "length (bf_block (F i0) (G i0) t (2 * i0 * t) t (bf_stage F G t i0 a)) = length (bf_stage F G t (Suc i0) a)"
    by simp
next
  fix K
  assume "K < length (bf_block (F i0) (G i0) t (2 * i0 * t) t (bf_stage F G t i0 a))"
  then have K: "K < length a"
    by simp
  have "Suc i0 \<le> m"
    using assms(2) by simp
  then have "2 * Suc i0 * t \<le> 2 * m * t"
    by (intro mult_le_mono) simp_all
  then have fit: "2 * i0 * t + 2 * t \<le> length a"
    using assms(1) by simp
  consider "K < 2 * i0 * t" | "2 * i0 * t \<le> K" "K < 2 * i0 * t + t"
    | "2 * i0 * t + t \<le> K" "K < 2 * i0 * t + 2 * t" | "2 * i0 * t + 2 * t \<le> K"
    by linarith
  then show "bf_block (F i0) (G i0) t (2 * i0 * t) t (bf_stage F G t i0 a) ! K = bf_stage F G t (Suc i0) a ! K"
  proof cases
    case 1
    then have "bf_block (F i0) (G i0) t (2 * i0 * t) t (bf_stage F G t i0 a) ! K = bf_stage F G t i0 a ! K"
      using K by (simp add: bf_block_nth)
    also have "\<dots> = bf_stage F G t (Suc i0) a ! K"
      using 1 K by (simp add: bf_stage_nth_done)
    finally show ?thesis .
  next
    case 2
    have dm: "K div (2 * t) = i0" "K mod (2 * t) < t"
      using block_div_mod [OF assms(3), of i0 K] 2 by simp_all
    have "bf_block (F i0) (G i0) t (2 * i0 * t) t (bf_stage F G t i0 a) ! K
        = F i0 (bf_stage F G t i0 a ! K) (bf_stage F G t i0 a ! (K + t))"
      using 2 K by (simp add: bf_block_nth)
    also have "\<dots> = F i0 (a ! K) (a ! (K + t))"
      using 2 K fit by (simp add: bf_stage_nth_rest)
    also have "\<dots> = bf_stage F G t (Suc i0) a ! K"
      using 2 K dm by (simp add: bf_stage_nth_done)
    finally show ?thesis .
  next
    case 3
    have dm: "K div (2 * t) = i0" "\<not> K mod (2 * t) < t"
      using block_div_mod [OF assms(3), of i0 K] 3 by simp_all
    have "bf_block (F i0) (G i0) t (2 * i0 * t) t (bf_stage F G t i0 a) ! K
        = G i0 (bf_stage F G t i0 a ! (K - t)) (bf_stage F G t i0 a ! K)"
      using 3 K by (simp add: bf_block_nth)
    also have "\<dots> = G i0 (a ! (K - t)) (a ! K)"
      using 3 K fit by (simp add: bf_stage_nth_rest)
    also have "\<dots> = bf_stage F G t (Suc i0) a ! K"
      using 3 K dm by (simp add: bf_stage_nth_done)
    finally show ?thesis .
  next
    case 4
    then have "bf_block (F i0) (G i0) t (2 * i0 * t) t (bf_stage F G t i0 a) ! K = bf_stage F G t i0 a ! K"
      using K by (simp add: bf_block_nth)
    also have "\<dots> = bf_stage F G t (Suc i0) a ! K"
      using 4 K by (simp add: bf_stage_nth_rest)
    finally show ?thesis .
  qed
qed

lemma bf_stage_0: "bf_stage F G t 0 a = a"
  by (intro nth_equalityI) (simp_all add: bf_stage_def)

lemma bf_stage_nth_lower:
  assumes "length a = 2 * m * t" "i < m" "k < t"
  shows "bf_stage F G t m a ! (2 * i * t + k) = F i (a ! (2 * i * t + k)) (a ! (2 * i * t + k + t))"
proof -
  have t: "0 < t"
    using assms(3) by simp
  have "Suc i \<le> m"
    using assms(2) by simp
  then have "2 * Suc i * t \<le> 2 * m * t"
    by (intro mult_le_mono) simp_all
  then have fit: "2 * i * t + 2 * t \<le> 2 * m * t"
    by simp
  have "(2 * i * t + k) div (2 * t) = i" "(2 * i * t + k) mod (2 * t) = (2 * i * t + k) - 2 * i * t"
    using block_div_mod [OF t, of i "2 * i * t + k"] assms(3) by simp_all
  then have "(2 * i * t + k) div (2 * t) = i" "(2 * i * t + k) mod (2 * t) < t"
    using assms(3) by simp_all
  with fit assms show ?thesis
    by (simp add: bf_stage_nth_done)
qed

lemma bf_stage_nth_upper:
  assumes "length a = 2 * m * t" "i < m" "k < t"
  shows "bf_stage F G t m a ! (2 * i * t + t + k) = G i (a ! (2 * i * t + k)) (a ! (2 * i * t + t + k))"
proof -
  have t: "0 < t"
    using assms(3) by simp
  have "Suc i \<le> m"
    using assms(2) by simp
  then have "2 * Suc i * t \<le> 2 * m * t"
    by (intro mult_le_mono) simp_all
  then have fit: "2 * i * t + 2 * t \<le> 2 * m * t"
    by simp
  have "(2 * i * t + t + k) div (2 * t) = i" "(2 * i * t + t + k) mod (2 * t) = (2 * i * t + t + k) - 2 * i * t"
    using block_div_mod [OF t, of i "2 * i * t + t + k"] assms(3) by simp_all
  then have "(2 * i * t + t + k) div (2 * t) = i" "\<not> (2 * i * t + t + k) mod (2 * t) < t"
    using assms(3) by simp_all
  with fit assms show ?thesis
    by (simp add: bf_stage_nth_done)
qed

lemma length_ct_stage [simp]: "length (ct_stage q roots m t a) = length a"
  by (simp add: ct_stage_def)

lemma length_gs_stage [simp]: "length (gs_stage q rootsInv h t a) = length a"
  by (simp add: gs_stage_def)

lemma length_ntt_stages [simp]: "length (ntt_stages q roots m d a) = length a"
  by (induction d arbitrary: m a) simp_all

lemma length_intt_stages [simp]: "length (intt_stages q rootsInv t e a) = length a"
  by (induction e arbitrary: t a) simp_all

lemma block_fits:
  assumes "i < m"
  shows "2 * i * t + 2 * t \<le> 2 * m * (t::nat)"
proof -
  have "Suc i \<le> m"
    using assms by simp
  then have "2 * Suc i * t \<le> 2 * m * t"
    by (intro mult_le_mono) simp_all
  then show ?thesis
    by simp
qed

lemma ntt_middle_loop:
  assumes q: "0 < q" and t: "0 < t" and len: "length a = 2 * m * t" and roots: "2 * m \<le> length roots"
  shows "for_each [0..<m] (\<lambda>i a. do {
            let j1 = 2 * i * t;
            s \<leftarrow> index roots (m + i);
            for_each [j1..<j1 + t] (ntt_butterfly q s t) a }) a = Some (ct_stage q roots m t a)"
proof -
  let ?body = "\<lambda>i a. do {
            let j1 = 2 * i * t;
            s \<leftarrow> index roots (m + i);
            for_each [j1..<j1 + t] (ntt_butterfly q s t) a }"
  let ?F = "\<lambda>i u v. (u + v * roots ! (m + i)) mod q"
  let ?G = "\<lambda>i u v. (u - v * roots ! (m + i)) mod q"
  have "i0 \<le> m \<Longrightarrow> for_each [0..<i0] ?body a = Some (bf_stage ?F ?G t i0 a)" for i0
  proof (induction i0)
    case 0
    show ?case
      by (simp add: bf_stage_0)
  next
    case (Suc i0)
    then have i0: "i0 < m" and IH: "for_each [0..<i0] ?body a = Some (bf_stage ?F ?G t i0 a)"
      by simp_all
    let ?b = "bf_stage ?F ?G t i0 a"
    have fit: "2 * i0 * t + 2 * t \<le> length ?b"
      using block_fits [OF i0, of t] len by simp
    have idx: "index roots (m + i0) = Some (roots ! (m + i0))"
      using i0 roots by simp
    have "for_each [2 * i0 * t..<2 * i0 * t + t] (ntt_butterfly q (roots ! (m + i0)) t) ?b
        = Some (bf_block (?F i0) (?G i0) t (2 * i0 * t) t ?b)"
      by (rule bf_inner_loop [OF _ _ fit]) (simp_all add: ntt_butterfly_def Let_def q)
    then have "?body i0 ?b = Some (bf_stage ?F ?G t (Suc i0) a)"
      using bf_stage_step [OF len i0 t, of ?F ?G] by (simp add: idx Let_def)
    then show ?case
      by (simp only: for_each_upt_Suc0 IH Option.bind.simps)
  qed
  from this [of m] show ?thesis
    by (simp add: ct_stage_def)
qed

lemma intt_butterfly_eq:
  "0 < q \<Longrightarrow> j + t < length a \<Longrightarrow>
   intt_butterfly q s t j a =
     Some (a[j := (a ! j + a ! (j + t)) mod q, j + t := ((a ! j - a ! (j + t)) * s) mod q])"
  by (simp add: intt_butterfly_def)

lemma intt_middle_loop:
  assumes q: "0 < q" and t: "0 < t" and len: "length a = 2 * h * t" and roots: "2 * h \<le> length rootsInv"
  shows "for_each [0..<h] (\<lambda>i (j1, a). do {
               s \<leftarrow> index rootsInv (h + i);
               a \<leftarrow> for_each [j1..<j1 + t] (intt_butterfly q s t) a;
               Some (j1 + 2 * t, a) }) (0, a) = Some (2 * h * t, gs_stage q rootsInv h t a)"
proof -
  let ?body = "\<lambda>i (j1, a). do {
               s \<leftarrow> index rootsInv (h + i);
               a \<leftarrow> for_each [j1..<j1 + t] (intt_butterfly q s t) a;
               Some (j1 + 2 * t, a) }"
  let ?F = "\<lambda>i u v. (u + v) mod q"
  let ?G = "\<lambda>i u v. ((u - v) * rootsInv ! (h + i)) mod q"
  have "i0 \<le> h \<Longrightarrow> for_each [0..<i0] ?body (0, a) = Some (2 * i0 * t, bf_stage ?F ?G t i0 a)" for i0
  proof (induction i0)
    case 0
    show ?case
      by (simp add: bf_stage_0)
  next
    case (Suc i0)
    then have i0: "i0 < h"
      and IH: "for_each [0..<i0] ?body (0, a) = Some (2 * i0 * t, bf_stage ?F ?G t i0 a)"
      by simp_all
    let ?b = "bf_stage ?F ?G t i0 a"
    have fit: "2 * i0 * t + 2 * t \<le> length ?b"
      using block_fits [OF i0, of t] len by simp
    have idx: "index rootsInv (h + i0) = Some (rootsInv ! (h + i0))"
      using i0 roots by simp
    have "for_each [2 * i0 * t..<2 * i0 * t + t] (intt_butterfly q (rootsInv ! (h + i0)) t) ?b
        = Some (bf_block (?F i0) (?G i0) t (2 * i0 * t) t ?b)"
      by (rule bf_inner_loop [OF _ _ fit]) (simp_all add: intt_butterfly_eq q)
    then have "?body i0 (2 * i0 * t, ?b) = Some (2 * Suc i0 * t, bf_stage ?F ?G t (Suc i0) a)"
      using bf_stage_step [OF len i0 t, of ?F ?G] by (simp add: idx)
    then show ?case
      by (simp only: for_each_upt_Suc0 IH Option.bind.simps)
  qed
  from this [of h] show ?thesis
    by (simp add: gs_stage_def)
qed

declare ntt_loop.simps [simp del]

declare intt_loop.simps [simp del]

lemma ntt_loop_stages:
  assumes "0 < q" "0 < m"
  shows "length a = m * 2 ^ d \<Longrightarrow> m * 2 ^ d \<le> length roots \<Longrightarrow>
         ntt_loop (m * 2 ^ d) q roots m (2 ^ d) a = Some (ntt_stages q roots m d a)"
  using assms(2)
proof (induction d arbitrary: m a)
  case 0
  then show ?case
    by (simp add: ntt_loop.simps [of m q roots m])
next
  case (Suc d)
  have "0 < (2::nat) ^ d"
    by simp
  then have "(1::nat) < 2 * 2 ^ d"
    by linarith
  then have "(1::nat) < 2 ^ Suc d"
    by (simp only: power_Suc)
  then have "m * 1 < m * 2 ^ Suc d"
    using Suc.prems(3) by (intro mult_strict_left_mono) simp_all
  then have lt: "m < m * 2 ^ Suc d"
    by simp
  have half: "(2::nat) ^ Suc d div 2 = 2 ^ d"
    by simp
  have "2 * m \<le> 2 * m * 2 ^ d"
    by simp
  also have "\<dots> = m * 2 ^ Suc d"
    by simp
  also have "\<dots> \<le> length roots"
    by (rule Suc.prems(2))
  finally have big: "2 * m \<le> length roots" .
  have mid: "for_each [0..<m] (\<lambda>i a. do {
            let j1 = 2 * i * 2 ^ d;
            s \<leftarrow> index roots (m + i);
            for_each [j1..<j1 + 2 ^ d] (ntt_butterfly q s (2 ^ d)) a }) a = Some (ct_stage q roots m (2 ^ d) a)"
    using Suc.prems(1) big by (intro ntt_middle_loop assms(1)) simp_all
  have rest: "ntt_loop (2 * m * 2 ^ d) q roots (2 * m) (2 ^ d) (ct_stage q roots m (2 ^ d) a)
      = Some (ntt_stages q roots (2 * m) d (ct_stage q roots m (2 ^ d) a))"
    using Suc.prems by (intro Suc.IH) simp_all
  have eq: "m * 2 ^ Suc d = 2 * m * 2 ^ d"
    by simp
  show ?case
    using lt Suc.prems(3) rest
    by (subst ntt_loop.simps) (simp only: half Let_def mid [unfolded Let_def] Option.bind.simps eq ntt_stages.simps if_True simp_thms)
qed

lemma intt_loop_stages:
  assumes "0 < q" "0 < t"
  shows "length a = 2 ^ e * t \<Longrightarrow> 2 ^ e \<le> length rootsInv \<Longrightarrow>
         intt_loop q rootsInv (2 ^ e) t a = Some (intt_stages q rootsInv t e a)"
  using assms(2)
proof (induction e arbitrary: t a)
  case 0
  then show ?case
    by (simp add: intt_loop.simps [of q rootsInv "Suc 0"])
next
  case (Suc e)
  have "0 < (2::nat) ^ e"
    by simp
  then have "(1::nat) < 2 * 2 ^ e"
    by linarith
  then have gt: "1 < (2::nat) ^ Suc e"
    by (simp only: power_Suc)
  have half: "(2::nat) ^ Suc e div 2 = 2 ^ e"
    by simp
  have mid: "for_each [0..<2 ^ e] (\<lambda>i (j1, a). do {
               s \<leftarrow> index rootsInv (2 ^ e + i);
               a \<leftarrow> for_each [j1..<j1 + t] (intt_butterfly q s t) a;
               Some (j1 + 2 * t, a) }) (0, a) = Some (2 * 2 ^ e * t, gs_stage q rootsInv (2 ^ e) t a)"
    using Suc.prems by (intro intt_middle_loop assms(1)) simp_all
  have rest: "intt_loop q rootsInv (2 ^ e) (2 * t) (gs_stage q rootsInv (2 ^ e) t a)
      = Some (intt_stages q rootsInv (2 * t) e (gs_stage q rootsInv (2 ^ e) t a))"
    using Suc.prems by (intro Suc.IH) simp_all
  have comm: "t * 2 = 2 * t"
    by simp
  show ?case
    using gt rest
    by (subst intt_loop.simps) (simp only: half Let_def mid [unfolded Let_def] Option.bind.simps comm intt_stages.simps if_True case_prod_conv)
qed

section \<open>The inverse transform undoes the forward transform\<close>

lemma eqm_refl [simp]: "eqm q a a"
  by (simp add: eqm_def)

lemma eqm_sym: "eqm q a b \<Longrightarrow> eqm q b a"
  by (simp add: eqm_def)

lemma eqm_trans: "eqm q a b \<Longrightarrow> eqm q b c \<Longrightarrow> eqm q a c"
  by (simp add: eqm_def)

lemma eqm_length: "eqm q a b \<Longrightarrow> length a = length b"
  by (simp add: eqm_def)

lemma eqm_nth: "eqm q a b \<Longrightarrow> i < length a \<Longrightarrow> a ! i mod q = b ! i mod q"
  by (simp add: eqm_def)

lemma block_index_cases:
  assumes "K < 2 * m * (t::nat)"
  obtains i k where "i < m" "k < t" "K = 2 * i * t + k"
        | i k where "i < m" "k < t" "K = 2 * i * t + t + k"
proof -
  have t: "0 < t"
    using assms by (cases t) simp_all
  define i where "i = K div (2 * t)"
  define r where "r = K mod (2 * t)"
  have "(2 * t) * i + r = K"
    unfolding i_def r_def by (rule mult_div_mod_eq)
  then have K: "K = 2 * i * t + r"
    by (simp add: mult.commute mult.left_commute)
  have r: "r < 2 * t"
    using t by (simp add: r_def)
  have "K < m * (2 * t)"
    using assms by (simp add: mult.commute mult.left_commute)
  then have i: "i < m"
    unfolding i_def by (rule less_mult_imp_div_less)
  show thesis
  proof (cases "r < t")
    case True
    with i K show thesis
      by (intro that(1) [of i r]) simp_all
  next
    case False
    with i K r show thesis
      by (intro that(2) [of i "r - t"]) simp_all
  qed
qed

lemma eqm_blocksI:
  assumes "length a = 2 * m * t" "length b = 2 * m * t"
    and "\<And>i k. i < m \<Longrightarrow> k < t \<Longrightarrow> a ! (2 * i * t + k) mod q = b ! (2 * i * t + k) mod q"
    and "\<And>i k. i < m \<Longrightarrow> k < t \<Longrightarrow> a ! (2 * i * t + t + k) mod q = b ! (2 * i * t + t + k) mod q"
  shows "eqm q a b"
  unfolding eqm_def
proof (intro conjI allI impI)
  show "length a = length b"
    using assms(1,2) by simp
next
  fix K
  assume "K < length a"
  then have "K < 2 * m * t"
    using assms(1) by simp
  then show "a ! K mod q = b ! K mod q"
  proof (cases rule: block_index_cases)
    case (1 i k)
    with assms(3) show ?thesis
      by simp
  next
    case (2 i k)
    with assms(4) show ?thesis
      by simp
  qed
qed

lemma block_lower_lt:
  assumes "i < m" "k < t"
  shows "2 * i * t + k < 2 * m * t" "2 * i * t + t + k < 2 * m * (t::nat)"
  using block_fits [OF assms(1), of t] assms(2) by simp_all

lemma bf_stage_eqm:
  assumes F: "\<And>i u u' v v'. i < m \<Longrightarrow> u mod q = u' mod q \<Longrightarrow> v mod q = v' mod q \<Longrightarrow> F i u v mod q = F i u' v' mod q"
    and G: "\<And>i u u' v v'. i < m \<Longrightarrow> u mod q = u' mod q \<Longrightarrow> v mod q = v' mod q \<Longrightarrow> G i u v mod q = G i u' v' mod q"
    and len: "length a = 2 * m * t" and eq: "eqm q a a'"
  shows "eqm q (bf_stage F G t m a) (bf_stage F G t m a')"
proof (rule eqm_blocksI [of _ m t])
  have len': "length a' = 2 * m * t"
    using eqm_length [OF eq] len by simp
  show "length (bf_stage F G t m a) = 2 * m * t" "length (bf_stage F G t m a') = 2 * m * t"
    using len len' by simp_all
  fix i k
  assume ik: "i < m" "k < t"
  have u: "a ! (2 * i * t + k) mod q = a' ! (2 * i * t + k) mod q"
    using eqm_nth [OF eq, of "2 * i * t + k"] block_lower_lt [OF ik] len by simp
  have v: "a ! (2 * i * t + t + k) mod q = a' ! (2 * i * t + t + k) mod q"
    using eqm_nth [OF eq, of "2 * i * t + t + k"] block_lower_lt [OF ik] len by simp
  have v': "a ! (2 * i * t + k + t) mod q = a' ! (2 * i * t + k + t) mod q"
    using v by (simp add: add.commute add.left_commute)
  show "bf_stage F G t m a ! (2 * i * t + k) mod q = bf_stage F G t m a' ! (2 * i * t + k) mod q"
    unfolding bf_stage_nth_lower [OF len ik] bf_stage_nth_lower [OF len' ik]
    by (rule F [OF ik(1) u v'])
  show "bf_stage F G t m a ! (2 * i * t + t + k) mod q = bf_stage F G t m a' ! (2 * i * t + t + k) mod q"
    unfolding bf_stage_nth_upper [OF len ik] bf_stage_nth_upper [OF len' ik]
    by (rule G [OF ik(1) u v])
qed

lemma gs_stage_eqm:
  assumes "length a = 2 * h * t" "eqm q a a'"
  shows "eqm q (gs_stage q rootsInv h t a) (gs_stage q rootsInv h t a')"
  unfolding gs_stage_def
proof (rule bf_stage_eqm [OF _ _ assms])
  fix i and u u' v v' :: int
  assume uv: "u mod q = u' mod q" "v mod q = v' mod q"
  show "(u + v) mod q mod q = (u' + v') mod q mod q"
    using mod_add_cong [OF uv] by simp
  have "(u - v) mod q = (u' - v') mod q"
    using uv by (rule mod_diff_cong)
  then have "(u - v) * rootsInv ! (h + i) mod q = (u' - v') * rootsInv ! (h + i) mod q"
    by (rule mod_mult_cong) simp
  then show "(u - v) * rootsInv ! (h + i) mod q mod q = (u' - v') * rootsInv ! (h + i) mod q mod q"
    by simp
qed

lemma ct_stage_eqm:
  assumes "length a = 2 * m * t" "eqm q a a'"
  shows "eqm q (ct_stage q roots m t a) (ct_stage q roots m t a')"
  unfolding ct_stage_def
proof (rule bf_stage_eqm [OF _ _ assms])
  fix i and u u' v v' :: int
  assume uv: "u mod q = u' mod q" "v mod q = v' mod q"
  have vs: "v * roots ! (m + i) mod q = v' * roots ! (m + i) mod q"
    using uv(2) by (rule mod_mult_cong) simp
  show "(u + v * roots ! (m + i)) mod q mod q = (u' + v' * roots ! (m + i)) mod q mod q"
    using mod_add_cong [OF uv(1) vs] by simp
  show "(u - v * roots ! (m + i)) mod q mod q = (u' - v' * roots ! (m + i)) mod q mod q"
    using mod_diff_cong [OF uv(1) vs] by simp
qed

lemma intt_stages_eqm:
  "length a = 2 ^ e * t \<Longrightarrow> eqm q a a' \<Longrightarrow>
   eqm q (intt_stages q rootsInv t e a) (intt_stages q rootsInv t e a')"
proof (induction e arbitrary: t a a')
  case 0
  then show ?case by simp
next
  case (Suc e)
  have len: "length a = 2 * 2 ^ e * t"
    using Suc.prems(1) by simp
  have "eqm q (gs_stage q rootsInv (2 ^ e) t a) (gs_stage q rootsInv (2 ^ e) t a')"
    using len Suc.prems(2) by (rule gs_stage_eqm)
  moreover have "length (gs_stage q rootsInv (2 ^ e) t a) = 2 ^ e * (2 * t)"
    using len by simp
  ultimately show ?case
    using Suc.IH by simp
qed

lemma ntt_stages_eqm:
  "length a = m * 2 ^ d \<Longrightarrow> eqm q a a' \<Longrightarrow>
   eqm q (ntt_stages q roots m d a) (ntt_stages q roots m d a')"
proof (induction d arbitrary: m a a')
  case 0
  then show ?case by simp
next
  case (Suc d)
  have len: "length a = 2 * m * 2 ^ d"
    using Suc.prems(1) by simp
  have "eqm q (ct_stage q roots m (2 ^ d) a) (ct_stage q roots m (2 ^ d) a')"
    using len Suc.prems(2) by (rule ct_stage_eqm)
  moreover have "length (ct_stage q roots m (2 ^ d) a) = (2 * m) * 2 ^ d"
    using len by simp
  ultimately show ?case
    using Suc.IH by simp
qed

text \<open>A Gentleman-Sande stage undoes the Cooley-Tukey stage of the same level, up to
  the factor 2.\<close>

lemma gs_ct_stage:
  assumes len: "length a = 2 * m * t"
    and inv: "\<And>i. i < m \<Longrightarrow> roots ! (m + i) * rootsInv ! (m + i) mod q = 1 mod q"
  shows "eqm q (gs_stage q rootsInv m t (ct_stage q roots m t a)) (map ((*) 2) a)"
proof (rule eqm_blocksI [of _ m t])
  let ?c = "ct_stage q roots m t a"
  show "length (gs_stage q rootsInv m t ?c) = 2 * m * t" "length (map ((*) 2) a) = 2 * m * t"
    using len by simp_all
  have lenc: "length ?c = 2 * m * t"
    using len by simp
  fix i k
  assume ik: "i < m" "k < t"
  define u where "u = a ! (2 * i * t + k)"
  define v where "v = a ! (2 * i * t + t + k)"
  define s where "s = roots ! (m + i)"
  define r where "r = rootsInv ! (m + i)"
  have sr: "s * r mod q = 1 mod q"
    unfolding s_def r_def by (rule inv [OF ik(1)])
  have lo: "?c ! (2 * i * t + k) = (u + v * s) mod q"
    unfolding ct_stage_def bf_stage_nth_lower [OF len ik]
    by (simp add: u_def v_def s_def add.commute add.left_commute)
  have hi: "?c ! (2 * i * t + t + k) = (u - v * s) mod q"
    unfolding ct_stage_def bf_stage_nth_upper [OF len ik]
    by (simp add: u_def v_def s_def)
  have hi': "?c ! (2 * i * t + k + t) = (u - v * s) mod q"
    using hi by (simp add: add.commute add.left_commute)
  have "gs_stage q rootsInv m t ?c ! (2 * i * t + k) = ((u + v * s) mod q + (u - v * s) mod q) mod q"
    unfolding gs_stage_def bf_stage_nth_lower [OF lenc ik]
    using lo hi' by (simp add: ct_stage_def)
  also have "\<dots> = (2 * u) mod q"
    by (simp add: mod_add_eq)
  finally show "gs_stage q rootsInv m t ?c ! (2 * i * t + k) mod q = map ((*) 2) a ! (2 * i * t + k) mod q"
    using block_lower_lt [OF ik] len by (simp add: u_def)
  have "gs_stage q rootsInv m t ?c ! (2 * i * t + t + k) = (((u + v * s) mod q - (u - v * s) mod q) * r) mod q"
    unfolding gs_stage_def bf_stage_nth_upper [OF lenc ik]
    using lo hi by (simp add: ct_stage_def r_def)
  also have "\<dots> = (((u + v * s) - (u - v * s)) * r) mod q"
    by (metis mod_diff_eq mod_mult_left_eq)
  also have "\<dots> = (2 * v * (s * r)) mod q"
    by (simp add: algebra_simps)
  also have "\<dots> = (2 * v * (s * r mod q)) mod q"
    by (simp add: mod_mult_right_eq)
  also have "\<dots> = (2 * v) mod q"
    unfolding sr by (simp add: mod_mult_right_eq)
  finally show "gs_stage q rootsInv m t ?c ! (2 * i * t + t + k) mod q = map ((*) 2) a ! (2 * i * t + t + k) mod q"
    using block_lower_lt [OF ik] len by (simp add: v_def)
qed

lemma gs_stage_scale:
  assumes len: "length a = 2 * h * t"
  shows "eqm q (gs_stage q rootsInv h t (map ((*) c) a)) (map ((*) c) (gs_stage q rootsInv h t a))"
proof (rule eqm_blocksI [of _ h t])
  let ?ca = "map ((*) c) a"
  show "length (gs_stage q rootsInv h t ?ca) = 2 * h * t"
    "length (map ((*) c) (gs_stage q rootsInv h t a)) = 2 * h * t"
    using len by simp_all
  have lenc: "length ?ca = 2 * h * t"
    using len by simp
  fix i k
  assume ik: "i < h" "k < t"
  define u where "u = a ! (2 * i * t + k)"
  define v where "v = a ! (2 * i * t + t + k)"
  define r where "r = rootsInv ! (h + i)"
  have cu: "?ca ! (2 * i * t + k) = c * u" and cv: "?ca ! (2 * i * t + t + k) = c * v"
    using block_lower_lt [OF ik] len by (simp_all add: u_def v_def)
  have cv': "?ca ! (2 * i * t + k + t) = c * v"
    using cv by (simp add: add.commute add.left_commute)
  have v': "a ! (2 * i * t + k + t) = v"
    by (simp add: v_def add.commute add.left_commute)
  have "gs_stage q rootsInv h t ?ca ! (2 * i * t + k) mod q = (c * u + c * v) mod q"
    unfolding gs_stage_def bf_stage_nth_lower [OF lenc ik] cu cv' by simp
  also have "\<dots> = (c * ((u + v) mod q)) mod q"
    by (simp add: mod_mult_right_eq algebra_simps)
  also have "\<dots> = map ((*) c) (gs_stage q rootsInv h t a) ! (2 * i * t + k) mod q"
    using block_lower_lt [OF ik] len
    by (simp add: gs_stage_def bf_stage_nth_lower [OF len ik] u_def v')
  finally show "gs_stage q rootsInv h t ?ca ! (2 * i * t + k) mod q
      = map ((*) c) (gs_stage q rootsInv h t a) ! (2 * i * t + k) mod q" .
  have "gs_stage q rootsInv h t ?ca ! (2 * i * t + t + k) mod q = ((c * u - c * v) * r) mod q"
    unfolding gs_stage_def bf_stage_nth_upper [OF lenc ik] cu cv by (simp add: r_def)
  also have "\<dots> = (c * (((u - v) * r) mod q)) mod q"
    by (simp add: mod_mult_right_eq algebra_simps)
  also have "\<dots> = map ((*) c) (gs_stage q rootsInv h t a) ! (2 * i * t + t + k) mod q"
    using block_lower_lt [OF ik] len
    by (simp add: gs_stage_def bf_stage_nth_upper [OF len ik] u_def v_def r_def)
  finally show "gs_stage q rootsInv h t ?ca ! (2 * i * t + t + k) mod q
      = map ((*) c) (gs_stage q rootsInv h t a) ! (2 * i * t + t + k) mod q" .
qed

lemma eqm_map_scale: "eqm q a b \<Longrightarrow> eqm q (map ((*) c) a) (map ((*) c) b)"
  unfolding eqm_def by (auto intro: mod_mult_cong)

text \<open>Running the inverse stages over the output of the forward stages from level \<open>m\<close>
  on gives back the input of level \<open>m\<close>, scaled by the number of values per block.\<close>

lemma intt_ntt_stages:
  assumes inv: "\<And>j. 1 \<le> j \<Longrightarrow> j < 2 ^ (e + d) \<Longrightarrow> roots ! j * rootsInv ! j mod q = 1 mod q"
  shows "length a = 2 ^ e * 2 ^ d \<Longrightarrow>
     eqm q (intt_stages q rootsInv 1 (e + d) (ntt_stages q roots (2 ^ e) d a))
           (intt_stages q rootsInv (2 ^ d) e (map ((*) (2 ^ d)) a))"
  using inv
proof (induction d arbitrary: e a)
  case 0
  have "map ((*) 1) a = a"
    by (induction a) simp_all
  then show ?case
    by simp
next
  case (Suc d)
  let ?c = "ct_stage q roots (2 ^ e) (2 ^ d) a"
  have len: "length a = 2 * 2 ^ e * 2 ^ d"
    using Suc.prems(1) by simp
  have lenc: "length ?c = 2 ^ Suc e * 2 ^ d"
    using len by simp
  have inv': "\<And>j. 1 \<le> j \<Longrightarrow> j < 2 ^ (Suc e + d) \<Longrightarrow> roots ! j * rootsInv ! j mod q = 1 mod q"
    using Suc.prems(2) by simp
  have IH: "eqm q (intt_stages q rootsInv 1 (Suc e + d) (ntt_stages q roots (2 ^ Suc e) d ?c))
           (intt_stages q rootsInv (2 ^ d) (Suc e) (map ((*) (2 ^ d)) ?c))"
    using Suc.IH [OF lenc inv'] by simp
  have inv_level: "\<And>i. i < 2 ^ e \<Longrightarrow> roots ! (2 ^ e + i) * rootsInv ! (2 ^ e + i) mod q = 1 mod q"
  proof -
    fix i :: nat
    assume "i < 2 ^ e"
    then have "2 ^ e + i < 2 * 2 ^ e"
      by simp
    also have "\<dots> \<le> 2 ^ e * 2 ^ Suc d"
      by simp
    finally have "2 ^ e + i < 2 ^ (e + Suc d)"
      by (simp add: power_add)
    moreover have "0 < (2::nat) ^ e"
      by simp
    then have "1 \<le> 2 ^ e + i"
      by linarith
    ultimately show "roots ! (2 ^ e + i) * rootsInv ! (2 ^ e + i) mod q = 1 mod q"
      by (intro Suc.prems(2))
  qed
  have s1: "eqm q (gs_stage q rootsInv (2 ^ e) (2 ^ d) (map ((*) (2 ^ d)) ?c))
              (map ((*) (2 ^ d)) (gs_stage q rootsInv (2 ^ e) (2 ^ d) ?c))"
    using len by (intro gs_stage_scale) simp
  have s2: "eqm q (map ((*) (2 ^ d)) (gs_stage q rootsInv (2 ^ e) (2 ^ d) ?c))
              (map ((*) (2 ^ d)) (map ((*) 2) a))"
    by (intro eqm_map_scale gs_ct_stage len inv_level)
  have s3: "map ((*) (2 ^ d)) (map ((*) 2) a) = map ((*) (2 * 2 ^ d)) a"
    by (simp add: mult.commute mult.left_commute)
  have step: "eqm q (gs_stage q rootsInv (2 ^ e) (2 ^ d) (map ((*) (2 ^ d)) ?c))
              (map ((*) (2 * 2 ^ d)) a)"
    using eqm_trans [OF s1 s2] unfolding s3 .
  have lens: "length (gs_stage q rootsInv (2 ^ e) (2 ^ d) (map ((*) (2 ^ d)) ?c)) = 2 ^ e * (2 * 2 ^ d)"
    using len by simp
  have s4: "eqm q (intt_stages q rootsInv (2 * 2 ^ d) e (gs_stage q rootsInv (2 ^ e) (2 ^ d) (map ((*) (2 ^ d)) ?c)))
              (intt_stages q rootsInv (2 * 2 ^ d) e (map ((*) (2 * 2 ^ d)) a))"
    using lens step by (rule intt_stages_eqm)
  have lhs_eq: "ntt_stages q roots (2 ^ e) (Suc d) a = ntt_stages q roots (2 ^ Suc e) d ?c"
    by (simp only: ntt_stages.simps power_Suc)
  have mid_eq: "intt_stages q rootsInv (2 ^ d) (Suc e) (map ((*) (2 ^ d)) ?c)
      = intt_stages q rootsInv (2 * 2 ^ d) e (gs_stage q rootsInv (2 ^ e) (2 ^ d) (map ((*) (2 ^ d)) ?c))"
    by (simp only: intt_stages.simps)
  have idx: "e + Suc d = Suc e + d"
    by simp
  have pw: "(2::nat) ^ Suc d = 2 * 2 ^ d" "(2::int) ^ Suc d = 2 * 2 ^ d"
    by simp_all
  show ?case
    unfolding lhs_eq idx pw
    using eqm_trans [OF IH [unfolded mid_eq] s4] .
qed

section \<open>Loops over single coefficients; arithmetic facts\<close>

subsection \<open>Pointwise loops\<close>

lemma for_each_pointwise:
  assumes body: "\<And>j b. j < n \<Longrightarrow> length b = n \<Longrightarrow> body j b = Some (b[j := f j (b ! j)])"
    and len: "length a = n"
  shows "c \<le> n \<Longrightarrow>
    for_each [0..<c] body a = Some (map (\<lambda>j. if j < c then f j (a ! j) else a ! j) [0..<n])"
proof (induction c)
  case 0
  show ?case
    using len by (simp, intro nth_equalityI) simp_all
next
  case (Suc c)
  let ?b = "map (\<lambda>j. if j < c then f j (a ! j) else a ! j) [0..<n]"
  have c: "c < n" and lenb: "length ?b = n"
    using Suc.prems by simp_all
  have "?b[c := f c (?b ! c)] = map (\<lambda>j. if j < Suc c then f j (a ! j) else a ! j) [0..<n]"
    using Suc.prems by (intro nth_equalityI) (auto simp: nth_list_update less_Suc_eq)
  then have "body c ?b = Some (map (\<lambda>j. if j < Suc c then f j (a ! j) else a ! j) [0..<n])"
    using body [OF c lenb] by simp
  moreover have "for_each [0..<c] body a = Some ?b"
    using Suc by simp
  ultimately show ?case
    by (simp only: for_each_upt_Suc0 Option.bind.simps)
qed

lemma for_each_pointwise_all:
  assumes "\<And>j b. j < n \<Longrightarrow> length b = n \<Longrightarrow> body j b = Some (b[j := f j (b ! j)])"
    and "length a = n"
  shows "for_each [0..<n] body a = Some (map (\<lambda>j. f j (a ! j)) [0..<n])"
  using for_each_pointwise [OF assms, where c = n] by simp

lemma for_each_map:
  assumes "\<And>j b. j < n \<Longrightarrow> length b = n \<Longrightarrow> body j b = Some (b[j := f (b ! j)])"
    and "length a = n"
  shows "for_each [0..<n] body a = Some (map f a)"
proof -
  have "map (\<lambda>j. f (a ! j)) [0..<n] = map f a"
    using assms(2) by (intro nth_equalityI) simp_all
  then show ?thesis
    using for_each_pointwise_all [of n body "\<lambda>j. f" a, OF assms] by simp
qed

subsection \<open>Powers of two, primes, inverses\<close>

lemma isPowerOfTwo_power: "isPowerOfTwo (2 ^ k)"
proof (induction k)
  case 0
  show ?case
    by (simp add: isPowerOfTwo.simps [of "Suc 0"])
next
  case (Suc k)
  have "0 < (2::nat) ^ k"
    by simp
  then have "\<not> (2::nat) * 2 ^ k < 2"
    by linarith
  then show ?case
    using Suc by (subst isPowerOfTwo.simps) simp
qed

lemma isPowerOfTwo_imp: "isPowerOfTwo n \<Longrightarrow> \<exists>k. n = 2 ^ k"
proof (induction n rule: isPowerOfTwo.induct)
  case (1 n)
  show ?case
  proof (cases "n < 2")
    case True
    with "1.prems" have "n = 1"
      by (subst (asm) isPowerOfTwo.simps) simp
    then have "n = 2 ^ 0"
      by simp
    then show ?thesis
      by blast
  next
    case False
    with "1.prems" have ev: "even n" and half: "isPowerOfTwo (n div 2)"
      by (subst (asm) isPowerOfTwo.simps, simp)+
    from "1.IH" [OF False half] obtain k where "n div 2 = 2 ^ k"
      by blast
    with ev have "n = 2 ^ Suc k"
      by auto
    then show ?thesis
      by blast
  qed
qed

lemma isPowerOfTwo_iff: "isPowerOfTwo n \<longleftrightarrow> (\<exists>k. n = 2 ^ k)"
  using isPowerOfTwo_imp isPowerOfTwo_power by blast

lemma ilog2_power [simp]: "ilog2 (2 ^ k) = k"
proof (induction k)
  case 0
  show ?case
    by (simp add: ilog2.simps [of "Suc 0"])
next
  case (Suc k)
  have "0 < (2::nat) ^ k"
    by simp
  then have "\<not> (2::nat) * 2 ^ k < 2"
    by linarith
  then show ?case
    using Suc by (subst ilog2.simps) simp
qed

lemma ProbablyPrime_gt_1: "ProbablyPrime p \<Longrightarrow> 1 < p"
  by (simp add: ProbablyPrime_def)

lemma ProbablyPrime_divisors:
  assumes "ProbablyPrime p" "d dvd p" "0 \<le> d"
  shows "d = 1 \<or> d = p"
proof (rule ccontr)
  assume neg: "\<not> (d = 1 \<or> d = p)"
  have p: "1 < p"
    using assms(1) by (rule ProbablyPrime_gt_1)
  have "d \<noteq> 0"
    using assms(2) p by auto
  moreover have "d \<le> p"
    using assms(2) p by (intro zdvd_imp_le) simp_all
  ultimately have "d \<in> {2..<p}"
    using neg assms(3) by auto
  then show False
    using assms(1,2) by (auto simp: ProbablyPrime_def)
qed

lemma ProbablyPrime_coprime:
  assumes "ProbablyPrime p" "\<not> p dvd a"
  shows "coprime p a"
proof -
  have "gcd p a dvd p" "0 \<le> gcd p a"
    by simp_all
  with assms(1) have "gcd p a = 1 \<or> gcd p a = p"
    by (rule ProbablyPrime_divisors)
  moreover have "gcd p a \<noteq> p"
    using assms(2) by (metis gcd_dvd2)
  ultimately show ?thesis
    by (simp add: coprime_iff_gcd_eq_1)
qed

lemma ProbablyPrime_dvd_mult:
  assumes "ProbablyPrime p" "p dvd a * b"
  shows "p dvd a \<or> p dvd b"
proof (cases "p dvd a")
  case True
  then show ?thesis ..
next
  case False
  with assms(1) have "coprime p a"
    by (rule ProbablyPrime_coprime)
  with assms(2) show ?thesis
    by (simp add: coprime_dvd_mult_right_iff)
qed

lemma modularInverse_Some:
  assumes "coprime a q" "1 < q"
  obtains b where "modularInverse a q = Some b" "0 \<le> b" "b < q" "a * b mod q = 1"
proof -
  obtain u v where "u * a + v * q = gcd a q"
    using bezout_int by blast
  then have uv: "a * u + q * v = 1"
    using assms(1) by (simp add: mult.commute)
  have "a * (u mod q) mod q = a * u mod q"
    by (simp add: mod_mult_right_eq)
  also have "\<dots> = (a * u + q * v) mod q"
    by simp
  also have "\<dots> = 1"
    using uv assms(2) by simp
  finally have P: "a * (u mod q) mod q = 1" .
  have "u mod q \<in> set [0..q - 1]"
    using assms(2) by simp
  with P have "List.find (\<lambda>b. a * b mod q = 1) [0..q - 1] \<noteq> None"
    by (auto simp: find_None_iff)
  then obtain b where b: "modularInverse a q = Some b"
    by (auto simp: modularInverse_def)
  then have "b \<in> set [0..q - 1]" "a * b mod q = 1"
    unfolding modularInverse_def by (auto simp: find_Some_iff in_set_conv_nth)
  with b that show thesis
    by auto
qed

lemma coprime_of_mod_2n:
  assumes "q mod (2 * int n) = 1"
  shows "coprime (int n) q"
proof (rule coprimeI)
  fix d
  assume d: "d dvd int n" "d dvd q"
  have "q = (2 * int n) * (q div (2 * int n)) + q mod (2 * int n)"
    by simp
  then have "q = (2 * int n) * (q div (2 * int n)) + 1"
    using assms by simp
  moreover have "d dvd (2 * int n) * (q div (2 * int n))"
    using d(1) by simp
  ultimately have "d dvd 1"
    using d(2) by (metis dvd_add_right_iff)
  then show "is_unit d" .
qed

lemma coprime_of_power_mod:
  assumes "g ^ m mod q = 1" "0 < m"
  shows "coprime (g::int) q"
proof (rule coprimeI)
  fix d
  assume d: "d dvd g" "d dvd q"
  have "g ^ m = q * (g ^ m div q) + g ^ m mod q"
    by simp
  then have "g ^ m = q * (g ^ m div q) + 1"
    using assms(1) by simp
  moreover have "g dvd g ^ m"
    using assms(2) by (intro dvd_power) simp
  then have "d dvd g ^ m"
    using d(1) by (rule dvd_trans [rotated])
  moreover have "d dvd q * (g ^ m div q)"
    using d(2) by simp
  ultimately show "is_unit d"
    by (metis dvd_add_right_iff)
qed

section \<open>The multiplier built by \<open>NewMultiplier\<close>\<close>

lemma rootsOfUnityBitReverse_length [simp]: "length (rootsOfUnityBitReverse n g q) = n"
  by (simp add: rootsOfUnityBitReverse_def)

lemma rootsOfUnityBitReverse_nth:
  "j < 2 ^ k \<Longrightarrow> rootsOfUnityBitReverse (2 ^ k) g q ! j = g ^ bitrev k j mod q"
  by (simp add: rootsOfUnityBitReverse_def)

lemma NewMultiplier_Some:
  assumes "isPowerOfTwo n" "ProbablyPrime q" "q mod (2 * int n) = 1"
    and "isPrimitiveRootOfUnity (2 * n) q (findRoot (2 * n) q)"
  obtains mul k gInv where "NewMultiplier findRoot n q = Some mul" "n = 2 ^ k" "wf_multiplier mul k"
    "Mod mul = q" "rootsBitReverse mul = rootsOfUnityBitReverse n (findRoot (2 * n) q) q"
    "invRootsBitReverse mul = rootsOfUnityBitReverse n gInv q"
    "findRoot (2 * n) q * gInv mod q = 1"
proof -
  define g where "g = findRoot (2 * n) q"
  obtain k where k: "n = 2 ^ k"
    using assms(1) isPowerOfTwo_imp by blast
  have q: "1 < q"
    using assms(2) by (rule ProbablyPrime_gt_1)
  have npos: "0 < n"
    using k by simp
  have one: "bigMod q (int (2 * n)) = Some 1"
    using npos assms(3) by (simp add: bigMod_def)
  obtain nInv where nInv: "modularInverse (int n) q = Some nInv" "int n * nInv mod q = 1"
    using modularInverse_Some [OF coprime_of_mod_2n [OF assms(3)] q] by metis
  have "g ^ (2 * n) mod q = 1"
    using assms(4) by (simp add: isPrimitiveRootOfUnity_def g_def)
  then have "coprime g q"
    using npos by (intro coprime_of_power_mod [of g "2 * n" q]) simp_all
  then obtain gInv where gInv: "modularInverse g q = Some gInv" "g * gInv mod q = 1"
    using modularInverse_Some [OF _ q] by metis
  define mul where "mul = \<lparr> N = n, Mod = q, nInvQ = nInv,
                 rootsBitReverse = rootsOfUnityBitReverse n g q,
                 invRootsBitReverse = rootsOfUnityBitReverse n gInv q \<rparr>"
  have new: "NewMultiplier findRoot n q = Some mul"
    using assms(1,2) one nInv(1) gInv(1)
    by (simp add: NewMultiplier_def g_def [symmetric] mul_def Let_def)
  have inv: "rootsBitReverse mul ! j * invRootsBitReverse mul ! j mod Mod mul = 1 mod Mod mul"
    if "j < 2 ^ k" for j
  proof -
    have "rootsBitReverse mul ! j * invRootsBitReverse mul ! j mod q
        = (g ^ bitrev k j mod q) * (gInv ^ bitrev k j mod q) mod q"
      using that by (simp add: mul_def k rootsOfUnityBitReverse_nth)
    also have "\<dots> = (g * gInv) ^ bitrev k j mod q"
      by (simp add: mod_mult_eq power_mult_distrib)
    also have "\<dots> = (g * gInv mod q) ^ bitrev k j mod q"
      by (simp add: power_mod)
    also have "\<dots> = 1 mod q"
      by (simp add: gInv(2))
    finally show ?thesis
      by (simp add: mul_def)
  qed
  have "wf_multiplier mul k"
    unfolding wf_multiplier_def using inv q nInv(2) by (simp add: mul_def k)
  then show thesis
    using new k gInv(2) by (intro that [of mul k gInv]) (simp_all add: mul_def g_def)
qed

lemma NTT_stages:
  assumes "wf_multiplier mul k" "length a = 2 ^ k"
  shows "NTT mul a = Some (ntt_stages (Mod mul) (rootsBitReverse mul) 1 k a)"
proof -
  have "ntt_loop (1 * 2 ^ k) (Mod mul) (rootsBitReverse mul) 1 (2 ^ k) a
      = Some (ntt_stages (Mod mul) (rootsBitReverse mul) 1 k a)"
    using assms by (intro ntt_loop_stages) (simp_all add: wf_multiplier_def)
  then show ?thesis
    using assms(1) by (simp add: NTT_def wf_multiplier_def)
qed

lemma INTT_stages:
  assumes "wf_multiplier mul k" "length a = 2 ^ k"
  shows "INTT mul a = Some (map (\<lambda>c. c * nInvQ mul mod Mod mul)
            (intt_stages (Mod mul) (invRootsBitReverse mul) 1 k a))"
proof -
  let ?b = "intt_stages (Mod mul) (invRootsBitReverse mul) 1 k a"
  have q: "0 < Mod mul"
    using assms(1) by (simp add: wf_multiplier_def)
  have loop: "intt_loop (Mod mul) (invRootsBitReverse mul) (2 ^ k) 1 a = Some ?b"
    using assms by (intro intt_loop_stages) (simp_all add: wf_multiplier_def)
  have len: "length ?b = 2 ^ k"
    using assms(2) by simp
  have scale: "for_each [0..<2 ^ k] (\<lambda>j a. do {
         c \<leftarrow> index a j;
         x \<leftarrow> bigMod (c * nInvQ mul) (Mod mul);
         Some (a[j := x]) }) ?b = Some (map (\<lambda>c. c * nInvQ mul mod Mod mul) ?b)"
    using len by (intro for_each_map) (simp_all add: q)
  have n: "N mul = 2 ^ k"
    using assms(1) by (simp add: wf_multiplier_def)
  show ?thesis
    unfolding INTT_def n loop Option.bind.simps by (rule scale)
qed

lemma INTT_eqm:
  assumes "wf_multiplier mul k" "length a = 2 ^ k" "eqm (Mod mul) a a'"
  shows "INTT mul a = INTT mul a'"
proof -
  have len': "length a' = 2 ^ k"
    using eqm_length [OF assms(3)] assms(2) by simp
  have "eqm (Mod mul) (intt_stages (Mod mul) (invRootsBitReverse mul) 1 k a)
                      (intt_stages (Mod mul) (invRootsBitReverse mul) 1 k a')"
    using assms(2,3) by (intro intt_stages_eqm) simp_all
  then have "map (\<lambda>c. c * nInvQ mul mod Mod mul) (intt_stages (Mod mul) (invRootsBitReverse mul) 1 k a)
           = map (\<lambda>c. c * nInvQ mul mod Mod mul) (intt_stages (Mod mul) (invRootsBitReverse mul) 1 k a')"
    unfolding eqm_def by (intro nth_equalityI) (auto intro: mod_mult_cong)
  then show ?thesis
    by (simp add: INTT_stages [OF assms(1,2)] INTT_stages [OF assms(1) len'])
qed

lemma INTT_NTT_stages:
  assumes wf: "wf_multiplier mul k" and len: "length a = 2 ^ k"
  shows "INTT mul (ntt_stages (Mod mul) (rootsBitReverse mul) 1 k a) = Some (map (\<lambda>c. c mod Mod mul) a)"
proof -
  let ?q = "Mod mul"
  let ?A = "ntt_stages ?q (rootsBitReverse mul) 1 k a"
  let ?B = "intt_stages ?q (invRootsBitReverse mul) 1 k ?A"
  have "eqm ?q (intt_stages ?q (invRootsBitReverse mul) 1 (0 + k) (ntt_stages ?q (rootsBitReverse mul) (2 ^ 0) k a))
               (intt_stages ?q (invRootsBitReverse mul) (2 ^ k) 0 (map ((*) (2 ^ k)) a))"
    using wf len by (intro intt_ntt_stages) (simp_all add: wf_multiplier_def)
  then have B: "eqm ?q ?B (map ((*) (2 ^ k)) a)"
    by simp
  have "map (\<lambda>c. c * nInvQ mul mod ?q) ?B = map (\<lambda>c. c mod ?q) a"
  proof (intro nth_equalityI)
    show "length (map (\<lambda>c. c * nInvQ mul mod ?q) ?B) = length (map (\<lambda>c. c mod ?q) a)"
      by simp
  next
    fix i
    assume "i < length (map (\<lambda>c. c * nInvQ mul mod ?q) ?B)"
    then have i: "i < length a"
      by simp
    have "?B ! i mod ?q = (2 ^ k * a ! i) mod ?q"
      using eqm_nth [OF B, of i] i by simp
    then have "?B ! i * nInvQ mul mod ?q = (2 ^ k * a ! i) * nInvQ mul mod ?q"
      by (rule mod_mult_cong) simp
    also have "\<dots> = a ! i * (2 ^ k * nInvQ mul) mod ?q"
      by (simp add: mult.commute mult.left_commute)
    also have "\<dots> = a ! i * (2 ^ k * nInvQ mul mod ?q) mod ?q"
      by (simp add: mod_mult_right_eq)
    also have "\<dots> = a ! i mod ?q"
      using wf by (simp add: wf_multiplier_def)
    finally show "map (\<lambda>c. c * nInvQ mul mod ?q) ?B ! i = map (\<lambda>c. c mod ?q) a ! i"
      using i by simp
  qed
  then show ?thesis
    using INTT_stages [OF wf, of ?A] len by simp
qed

text \<open>C3: for \<open>N\<close> a power of two, \<open>q\<close> prime with \<open>q \<equiv> 1 (mod 2N)\<close> and every polynomial
  \<open>a\<close> of length \<open>N\<close>, the multiplier's \<open>NTT\<close> followed by its \<open>INTT\<close> returns the
  coefficients of \<open>a\<close> reduced modulo \<open>q\<close>; coefficients already in \<open>[0, q)\<close> are
  restored exactly.\<close>

theorem NTT_INTT_roundtrip:
  assumes "isPowerOfTwo n" "ProbablyPrime q" "q mod (2 * int n) = 1"
    and "isPrimitiveRootOfUnity (2 * n) q (findRoot (2 * n) q)"
    and "length a = n"
  shows "\<exists>mul. NewMultiplier findRoot n q = Some mul \<and>
           Option.bind (NTT mul a) (INTT mul) = Some (map (\<lambda>c. c mod q) a) \<and>
           ((\<forall>c\<in>set a. 0 \<le> c \<and> c < q) \<longrightarrow> Option.bind (NTT mul a) (INTT mul) = Some a)"
proof -
  obtain mul k where mul: "NewMultiplier findRoot n q = Some mul" "n = 2 ^ k" "wf_multiplier mul k" "Mod mul = q"
    using NewMultiplier_Some [of n q findRoot, OF assms(1-4)] by metis
  have len: "length a = 2 ^ k"
    using assms(5) mul(2) by simp
  have rt: "Option.bind (NTT mul a) (INTT mul) = Some (map (\<lambda>c. c mod q) a)"
    using INTT_NTT_stages [OF mul(3) len] by (simp add: NTT_stages [OF mul(3) len] mul(4))
  have "map (\<lambda>c. c mod q) a = a" if "\<forall>c\<in>set a. 0 \<le> c \<and> c < q"
    using that by (intro map_idI) simp
  with rt mul(1) show ?thesis
    by auto
qed

theorem NTT_INTT_roundtrip_witness:
  "\<exists>mul. NewMultiplier (\<lambda>m q. 2) 2 5 = Some mul \<and>
      Option.bind (NTT mul [3, 4]) (INTT mul) = Some [3, 4]"
proof -
  have "isPowerOfTwo 2" "ProbablyPrime 5" "(5::int) mod (2 * int 2) = 1"
    "isPrimitiveRootOfUnity (2 * 2) 5 ((\<lambda>m q. 2) (2 * 2) 5)" "length [3, 4 :: int] = 2"
    by code_simp+
  from NTT_INTT_roundtrip [of 2 5 "\<lambda>m q. 2" "[3, 4]", OF this] show ?thesis
    by simp
qed

section \<open>The forward transform evaluates the polynomial\<close>

lemma sum_mod_cong:
  fixes f g :: "nat \<Rightarrow> int"
  assumes "\<And>l. l < m \<Longrightarrow> f l mod q = g l mod q"
  shows "(\<Sum>l<m. f l) mod q = (\<Sum>l<m. g l) mod q"
proof -
  have "(\<Sum>l<m. f l) mod q = (\<Sum>l<m. f l mod q) mod q"
    by (simp add: mod_sum_eq)
  also have "\<dots> = (\<Sum>l<m. g l mod q) mod q"
    using assms by simp
  also have "\<dots> = (\<Sum>l<m. g l) mod q"
    by (simp add: mod_sum_eq)
  finally show ?thesis .
qed

lemma sum_even_odd:
  fixes f :: "nat \<Rightarrow> int"
  shows "(\<Sum>l<2 * m. f l) = (\<Sum>l<m. f (2 * l)) + (\<Sum>l<m. f (2 * l + 1))"
  by (induction m) (simp_all add: algebra_simps)

lemma eval_split:
  fixes F :: "nat \<Rightarrow> int"
  assumes "x * x mod q = c mod q"
  shows "(\<Sum>l<2 * m. F l * x ^ l) mod q
       = ((\<Sum>l<m. F (2 * l) * c ^ l) + (\<Sum>l<m. F (2 * l + 1) * c ^ l) * x) mod q"
proof -
  have pw: "(x * x) ^ l mod q = c ^ l mod q" for l
    using assms by (metis power_mod)
  have e: "F (2 * l) * x ^ (2 * l) = F (2 * l) * (x * x) ^ l" for l
    by (simp add: power_mult power2_eq_square)
  have o: "F (2 * l + 1) * x ^ (2 * l + 1) = F (2 * l + 1) * (x * x) ^ l * x" for l
    by (simp add: power_mult power2_eq_square)
  have "(\<Sum>l<2 * m. F l * x ^ l) = (\<Sum>l<m. F (2 * l) * x ^ (2 * l)) + (\<Sum>l<m. F (2 * l + 1) * x ^ (2 * l + 1))"
    by (rule sum_even_odd)
  also have "\<dots> = (\<Sum>l<m. F (2 * l) * (x * x) ^ l) + (\<Sum>l<m. F (2 * l + 1) * (x * x) ^ l * x)"
    by (simp only: e o)
  also have "\<dots> = (\<Sum>l<m. F (2 * l) * (x * x) ^ l) + (\<Sum>l<m. F (2 * l + 1) * (x * x) ^ l) * x"
    by (simp only: sum_distrib_right)
  finally have split: "(\<Sum>l<2 * m. F l * x ^ l) = (\<Sum>l<m. F (2 * l) * (x * x) ^ l) + (\<Sum>l<m. F (2 * l + 1) * (x * x) ^ l) * x" .
  have A: "(\<Sum>l<m. F (2 * l) * (x * x) ^ l) mod q = (\<Sum>l<m. F (2 * l) * c ^ l) mod q"
    by (rule sum_mod_cong) (rule mod_mult_cong [OF refl pw])
  have B: "(\<Sum>l<m. F (2 * l + 1) * (x * x) ^ l) mod q = (\<Sum>l<m. F (2 * l + 1) * c ^ l) mod q"
    by (rule sum_mod_cong) (rule mod_mult_cong [OF refl pw])
  show ?thesis
    unfolding split by (rule mod_add_cong [OF A mod_mult_cong [OF B refl]])
qed

lemma ct_stage_inv:
  assumes len: "length b = 2 * m * t" and m: "0 < m"
    and inv: "ntt_inv q roots a m (2 * t) b"
    and tab: "\<And>i. i < m \<Longrightarrow> roots ! (m + i) * roots ! (m + i) mod q = cmod roots (m + i) mod q"
  shows "ntt_inv q roots a (2 * m) t (ct_stage q roots m t b)"
  unfolding ntt_inv_def
proof (intro allI impI)
  fix i' k
  assume i': "i' < 2 * m" and k: "k < t"
  define i where "i = i' div 2"
  have i: "i < m"
    using i' by (simp add: i_def)
  define s where "s = roots ! (m + i)"
  define c where "c = cmod roots (m + i)"
  define u where "u = b ! (2 * i * t + k)"
  define v where "v = b ! (2 * i * t + t + k)"
  have sc: "s * s mod q = c mod q"
    unfolding s_def c_def by (rule tab [OF i])
  have "b ! (i * (2 * t) + k) mod q = (\<Sum>l<m. a ! (k + l * (2 * t)) * c ^ l) mod q"
    using inv i k unfolding ntt_inv_def c_def by simp
  then have U: "(\<Sum>l<m. a ! (k + 2 * l * t) * c ^ l) mod q = u mod q"
    by (simp add: u_def mult.commute mult.left_commute)
  have "b ! (i * (2 * t) + (t + k)) mod q = (\<Sum>l<m. a ! ((t + k) + l * (2 * t)) * c ^ l) mod q"
    using inv i k unfolding ntt_inv_def c_def by simp
  then have V: "(\<Sum>l<m. a ! (k + (2 * l + 1) * t) * c ^ l) mod q = v mod q"
    by (simp add: v_def algebra_simps)
  have key: "(\<Sum>l<2 * m. a ! (k + l * t) * x ^ l) mod q = (u + v * x) mod q" if "x * x mod q = c mod q" for x
  proof -
    have "(\<Sum>l<2 * m. a ! (k + l * t) * x ^ l) mod q
        = ((\<Sum>l<m. a ! (k + 2 * l * t) * c ^ l) + (\<Sum>l<m. a ! (k + (2 * l + 1) * t) * c ^ l) * x) mod q"
      by (rule eval_split [OF that, of "\<lambda>l. a ! (k + l * t)"])
    also have "\<dots> = (u + v * x) mod q"
      by (rule mod_add_cong [OF U mod_mult_cong [OF V refl]])
    finally show ?thesis .
  qed
  show "ct_stage q roots m t b ! (i' * t + k) mod q
      = (\<Sum>l<2 * m. a ! (k + l * t) * cmod roots (2 * m + i') ^ l) mod q"
  proof (cases "even i'")
    case True
    then have i'_eq: "i' = 2 * i"
      by (simp add: i_def)
    have "cmod roots (2 * m + i') = s"
      using m by (simp add: cmod_def i'_eq s_def)
    moreover have "ct_stage q roots m t b ! (i' * t + k) = (u + v * s) mod q"
      unfolding i'_eq ct_stage_def bf_stage_nth_lower [OF len i k]
      by (simp add: u_def v_def s_def add.commute add.left_commute)
    ultimately show ?thesis
      using key [OF sc] by simp
  next
    case False
    then have i'_eq: "i' = 2 * i + 1"
      by (simp add: i_def)
    have idx: "i' * t + k = 2 * i * t + t + k"
      by (simp add: i'_eq algebra_simps)
    have "(2 * m + i') div 2 = m + i"
      by (simp add: i'_eq)
    then have "cmod roots (2 * m + i') = - s"
      using m by (simp add: cmod_def i'_eq s_def)
    moreover have "ct_stage q roots m t b ! (i' * t + k) = (u + v * (- s)) mod q"
      unfolding idx ct_stage_def bf_stage_nth_upper [OF len i k]
      by (simp add: u_def v_def s_def)
    moreover have "(- s) * (- s) mod q = c mod q"
      using sc by simp
    ultimately show ?thesis
      using key [of "- s"] by simp
  qed
qed

lemma ntt_stages_inv:
  assumes tab: "table_ok q n roots"
  shows "ntt_inv q roots a m (2 ^ d) b \<Longrightarrow> length b = m * 2 ^ d \<Longrightarrow> 0 < m \<Longrightarrow> m * 2 ^ d \<le> n \<Longrightarrow>
         ntt_inv q roots a (m * 2 ^ d) 1 (ntt_stages q roots m d b)"
proof (induction d arbitrary: m b)
  case 0
  then show ?case
    by simp
next
  case (Suc d)
  have len: "length b = 2 * m * 2 ^ d"
    using Suc.prems(2) by simp
  have inv: "ntt_inv q roots a m (2 * 2 ^ d) b"
    using Suc.prems(1) by simp
  have tab': "roots ! (m + i) * roots ! (m + i) mod q = cmod roots (m + i) mod q" if "i < m" for i
  proof -
    have "m + i < 2 * m"
      using that by simp
    also have "\<dots> \<le> 2 * m * 2 ^ d"
      by simp
    also have "\<dots> \<le> n"
      using Suc.prems(4) by (simp add: mult.commute mult.left_commute)
    finally have "m + i < n" .
    moreover have "1 \<le> m + i"
      using Suc.prems(3) by simp
    ultimately show ?thesis
      using tab unfolding table_ok_def by blast
  qed
  have step: "ntt_inv q roots a (2 * m) (2 ^ d) (ct_stage q roots m (2 ^ d) b)"
    using len Suc.prems(3) inv tab' by (rule ct_stage_inv)
  have "ntt_inv q roots a (2 * m * 2 ^ d) 1 (ntt_stages q roots (2 * m) d (ct_stage q roots m (2 ^ d) b))"
    using step Suc.prems(3,4) len by (intro Suc.IH) (simp_all add: mult.commute mult.left_commute)
  moreover have "2 * m * 2 ^ d = m * 2 ^ Suc d"
    by simp
  ultimately show ?case
    by (simp only: ntt_stages.simps)
qed

lemma ntt_inv_init: "ntt_inv q roots a 1 n a"
  by (simp add: ntt_inv_def)

lemma cmod_power:
  assumes tab: "table_ok q n roots"
  shows "2 ^ e \<le> j \<Longrightarrow> j < 2 * 2 ^ e \<Longrightarrow> j < 2 * n \<Longrightarrow> cmod roots j ^ (2 ^ e) mod q = (- 1) mod q"
proof (induction e arbitrary: j)
  case 0
  then have "j = 1"
    by simp
  then show ?case
    by (simp add: cmod_def)
next
  case (Suc e)
  define r where "r = roots ! (j div 2)"
  have j2: "2 ^ e \<le> j div 2" "j div 2 < 2 * 2 ^ e" "j div 2 < n"
    using Suc.prems by simp_all
  have "0 < (2::nat) ^ e"
    by simp
  with j2(1) have pos: "1 \<le> j div 2"
    by linarith
  with Suc.prems(1) have "j \<noteq> 1"
    by auto
  then have "cmod roots j = r \<or> cmod roots j = - r"
    by (simp add: cmod_def r_def)
  then have "cmod roots j ^ 2 = r * r"
    by (auto simp: power2_eq_square)
  then have "cmod roots j ^ (2 ^ Suc e) = (r * r) ^ (2 ^ e)"
    by (simp add: power_mult)
  also have "\<dots> mod q = (r * r mod q) ^ (2 ^ e) mod q"
    by (simp add: power_mod)
  also have "r * r mod q = cmod roots (j div 2) mod q"
    using tab pos j2(3) unfolding table_ok_def r_def by blast
  also have "(cmod roots (j div 2) mod q) ^ (2 ^ e) mod q = cmod roots (j div 2) ^ (2 ^ e) mod q"
    by (simp add: power_mod)
  also have "\<dots> = (- 1) mod q"
    using j2 by (intro Suc.IH) simp_all
  finally show ?case .
qed

section \<open>The table of bit-reversed powers\<close>

lemma bitrev_zero [simp]: "bitrev k 0 = 0"
  by (induction k) simp_all

lemma bitrev_double: "j < 2 ^ k \<Longrightarrow> bitrev (Suc k) j = 2 * bitrev k j"
proof (induction k arbitrary: j)
  case 0
  then show ?case
    by simp
next
  case (Suc k)
  have "j div 2 < 2 ^ k"
    using Suc.prems by simp
  then have "bitrev (Suc k) (j div 2) = 2 * bitrev k (j div 2)"
    by (rule Suc.IH)
  then show ?case
    by simp
qed

lemma primitive_root_half:
  assumes p: "ProbablyPrime q" and g: "isPrimitiveRootOfUnity (2 * n) q g"
  shows "g ^ n mod q = (- 1) mod q"
proof -
  have one: "g ^ (2 * n) mod q = 1" and ne: "g ^ n mod q \<noteq> 1"
    using g by (simp_all add: isPrimitiveRootOfUnity_def)
  have q: "1 < q"
    using p by (rule ProbablyPrime_gt_1)
  have "g ^ (2 * n) mod q = 1 mod q"
    using one q by simp
  then have "q dvd g ^ (2 * n) - 1"
    by (simp add: mod_eq_dvd_iff)
  moreover have "g ^ (2 * n) - 1 = (g ^ n - 1) * (g ^ n + 1)"
    by (simp add: power_mult power2_eq_square algebra_simps mult.commute [of 2 n] power_mult [of g n 2])
  ultimately have "q dvd g ^ n - 1 \<or> q dvd g ^ n + 1"
    using ProbablyPrime_dvd_mult [OF p] by simp
  moreover have "\<not> q dvd g ^ n - 1"
  proof
    assume "q dvd g ^ n - 1"
    then have "g ^ n mod q = 1 mod q"
      by (simp add: mod_eq_dvd_iff)
    with ne q show False
      by simp
  qed
  ultimately have "q dvd g ^ n - (- 1)"
    by simp
  then show ?thesis
    by (simp only: mod_eq_dvd_iff)
qed

lemma rootsOfUnityBitReverse_table_ok:
  assumes half: "g ^ (2 ^ k) mod q = (- 1) mod q"
  shows "table_ok q (2 ^ k) (rootsOfUnityBitReverse (2 ^ k) g q)"
  unfolding table_ok_def
proof (intro allI impI)
  fix j :: nat
  assume j: "1 \<le> j \<and> j < 2 ^ k"
  let ?T = "rootsOfUnityBitReverse (2 ^ k) g q"
  obtain k' where k: "k = Suc k'"
    using j by (cases k) auto
  have nth: "?T ! i = g ^ bitrev k i mod q" if "i < 2 ^ k" for i
    using that by (rule rootsOfUnityBitReverse_nth)
  have "?T ! j * ?T ! j mod q = (g ^ bitrev k j mod q) * (g ^ bitrev k j mod q) mod q"
    using j by (simp add: nth)
  also have "\<dots> = g ^ bitrev k j * g ^ bitrev k j mod q"
    by (simp add: mod_mult_eq)
  also have "g ^ bitrev k j * g ^ bitrev k j = g ^ (2 * bitrev k j)"
    by (simp add: power_add [symmetric] mult_2)
  finally have sq: "?T ! j * ?T ! j mod q = g ^ (2 * bitrev k j) mod q" .
  show "?T ! j * ?T ! j mod q = cmod ?T j mod q"
  proof (cases "j = 1")
    case True
    have "bitrev k 1 = 2 ^ k'"
      by (simp add: k)
    then have "g ^ (2 * bitrev k j) = g ^ (2 ^ k)"
      by (simp add: True k)
    with sq half show ?thesis
      by (simp add: cmod_def True)
  next
    case False
    have "j < 2 ^ k' * 2"
      using j by (simp add: k)
    then have j2: "j div 2 < 2 ^ k'"
      by (rule less_mult_imp_div_less)
    then have j2': "j div 2 < 2 ^ k"
      by (simp add: k)
    have half_idx: "bitrev k (j div 2) = 2 * bitrev k' (j div 2)"
      unfolding k using j2 by (rule bitrev_double)
    show ?thesis
    proof (cases "even j")
      case True
      then have "bitrev k j = bitrev k' (j div 2)"
        by (simp add: k)
      then have "2 * bitrev k j = bitrev k (j div 2)"
        using half_idx by linarith
      then have "g ^ (2 * bitrev k j) = g ^ bitrev k (j div 2)"
        by (simp only:)
      with sq show ?thesis
        using False True by (simp add: cmod_def nth [OF j2'])
    next
      case odd: False
      then have "j mod 2 = 1"
        by (simp add: odd_iff_mod_2_eq_one)
      then have "bitrev k j = 2 ^ k' + bitrev k' (j div 2)"
        by (simp add: k)
      moreover have "(2::nat) ^ k = 2 * 2 ^ k'"
        by (simp add: k)
      ultimately have "2 * bitrev k j = 2 ^ k + bitrev k (j div 2)"
        using half_idx by linarith
      then have "g ^ (2 * bitrev k j) = g ^ (2 ^ k) * g ^ bitrev k (j div 2)"
        by (simp only: power_add)
      then have "g ^ (2 * bitrev k j) mod q = (g ^ (2 ^ k) mod q) * (g ^ bitrev k (j div 2) mod q) mod q"
        by (simp add: mod_mult_eq)
      also have "\<dots> = (- 1) * (g ^ bitrev k (j div 2) mod q) mod q"
        unfolding half by (simp add: mod_mult_left_eq)
      also have "\<dots> = (- (?T ! (j div 2))) mod q"
        by (simp add: nth [OF j2'])
      finally show ?thesis
        using sq False odd by (simp add: cmod_def)
    qed
  qed
qed

section \<open>The negacyclic product under evaluation\<close>

lemma negacyclic_term_sum:
  fixes A w :: int
  assumes "i < n" "j < n"
  shows "(\<Sum>k<n. (if i + j = k then A else if i + j = k + n then - A else 0) * w ^ k)
       = (if i + j < n then A * w ^ (i + j) else - A * w ^ (i + j - n))"
proof (cases "i + j < n")
  case True
  have "(\<Sum>k<n. (if i + j = k then A else if i + j = k + n then - A else 0) * w ^ k)
      = (\<Sum>k<n. if k = i + j then A * w ^ k else 0)"
    using True by (intro sum.cong refl) auto
  also have "\<dots> = A * w ^ (i + j)"
    using True by (simp add: sum.delta)
  finally show ?thesis
    using True by simp
next
  case False
  have lt: "i + j - n < n"
    using assms by linarith
  have "(\<Sum>k<n. (if i + j = k then A else if i + j = k + n then - A else 0) * w ^ k)
      = (\<Sum>k<n. if k = i + j - n then - A * w ^ k else 0)"
    using False by (intro sum.cong refl) auto
  also have "\<dots> = - A * w ^ (i + j - n)"
    using lt by (simp add: sum.delta)
  finally show ?thesis
    using False by simp
qed

lemma negacyclic_term_mod:
  fixes A w :: int
  assumes "w ^ n mod q = (- 1) mod q"
  shows "(if i + j < n then A * w ^ (i + j) else - A * w ^ (i + j - n)) mod q = A * w ^ (i + j) mod q"
proof (cases "i + j < n")
  case True
  then show ?thesis
    by simp
next
  case False
  then have "w ^ (i + j) = w ^ n * w ^ (i + j - n)"
    by (simp add: power_add [symmetric])
  then have "A * w ^ (i + j) = w ^ n * (A * w ^ (i + j - n))"
    by simp
  then have "A * w ^ (i + j) mod q = (w ^ n mod q) * (A * w ^ (i + j - n)) mod q"
    by (simp only: mod_mult_left_eq)
  also have "\<dots> = (- 1) * (A * w ^ (i + j - n)) mod q"
    unfolding assms by (simp add: mod_mult_left_eq)
  finally show ?thesis
    using False by simp
qed

lemma negacyclic_eval:
  assumes len: "length y = length x" and w: "w ^ length x mod q = (- 1) mod q"
  shows "(\<Sum>k<length x. negacyclic x y k * w ^ k) mod q = (peval x w * peval y w) mod q"
proof -
  let ?n = "length x"
  let ?W = "\<lambda>i j k. (if i + j = k then x ! i * y ! j
        else if i + j = k + ?n then - (x ! i * y ! j) else 0)"
  have "(\<Sum>k<?n. negacyclic x y k * w ^ k) = (\<Sum>k<?n. \<Sum>i<?n. \<Sum>j<?n. ?W i j k * w ^ k)"
    by (simp add: negacyclic_def len sum_distrib_right)
  also have "\<dots> = (\<Sum>i<?n. \<Sum>k<?n. \<Sum>j<?n. ?W i j k * w ^ k)"
    by (rule sum.swap)
  also have "\<dots> = (\<Sum>i<?n. \<Sum>j<?n. \<Sum>k<?n. ?W i j k * w ^ k)"
    by (intro sum.cong refl sum.swap)
  also have "\<dots> = (\<Sum>i<?n. \<Sum>j<?n. if i + j < ?n then x ! i * y ! j * w ^ (i + j)
                    else - (x ! i * y ! j) * w ^ (i + j - ?n))"
    by (intro sum.cong refl negacyclic_term_sum) simp_all
  finally have lhs: "(\<Sum>k<?n. negacyclic x y k * w ^ k) = (\<Sum>i<?n. \<Sum>j<?n. if i + j < ?n then x ! i * y ! j * w ^ (i + j)
                    else - (x ! i * y ! j) * w ^ (i + j - ?n))" .
  have inner: "(\<Sum>j<?n. if i + j < ?n then x ! i * y ! j * w ^ (i + j)
                    else - (x ! i * y ! j) * w ^ (i + j - ?n)) mod q
      = (\<Sum>j<?n. x ! i * y ! j * w ^ (i + j)) mod q" for i
    by (rule sum_mod_cong) (rule negacyclic_term_mod [OF w])
  have "(\<Sum>i<?n. \<Sum>j<?n. if i + j < ?n then x ! i * y ! j * w ^ (i + j)
                    else - (x ! i * y ! j) * w ^ (i + j - ?n)) mod q
      = (\<Sum>i<?n. \<Sum>j<?n. x ! i * y ! j * w ^ (i + j)) mod q"
    by (rule sum_mod_cong) (rule inner)
  also have "(\<Sum>i<?n. \<Sum>j<?n. x ! i * y ! j * w ^ (i + j)) = (\<Sum>i<?n. \<Sum>j<?n. (x ! i * w ^ i) * (y ! j * w ^ j))"
    by (simp add: power_add algebra_simps)
  also have "\<dots> = peval x w * peval y w"
    by (simp add: peval_def len sum_product)
  finally show ?thesis
    unfolding lhs .
qed

section \<open>The quadratic reference product\<close>

lemma length_reference_step [simp]: "length (reference_step x y p out) = length out"
  by (simp add: reference_step_def Let_def)

lemma length_fold_reference_step [simp]: "length (fold (reference_step x y) ps out) = length out"
  by (induction ps arbitrary: out) simp_all

lemma reference_step_nth:
  assumes "length out = length x" "fst p < length x" "snd p < length x" "k < length x"
  shows "reference_step x y p out ! k = out ! k +
     (if fst p + snd p = k then x ! fst p * y ! snd p
      else if fst p + snd p = k + length x then - (x ! fst p * y ! snd p) else 0)"
proof (cases "fst p + snd p < length x")
  case True
  with assms show ?thesis
    by (auto simp: reference_step_def Let_def nth_list_update)
next
  case False
  then have "fst p + snd p - length x < length x"
    using assms(2,3) by linarith
  with False assms show ?thesis
    by (auto simp: reference_step_def Let_def nth_list_update)
qed

lemma fold_reference_step_nth:
  assumes "length out = length x" "\<forall>p\<in>set ps. fst p < length x \<and> snd p < length x" "k < length x"
  shows "fold (reference_step x y) ps out ! k = out ! k +
     (\<Sum>p\<leftarrow>ps. if fst p + snd p = k then x ! fst p * y ! snd p
      else if fst p + snd p = k + length x then - (x ! fst p * y ! snd p) else 0)"
  using assms(1,2)
proof (induction ps arbitrary: out)
  case Nil
  show ?case
    by simp
next
  case (Cons p ps)
  have p: "fst p < length x" "snd p < length x"
    using Cons.prems(2) by simp_all
  have "fold (reference_step x y) (p # ps) out ! k = fold (reference_step x y) ps (reference_step x y p out) ! k"
    by simp
  also have "\<dots> = reference_step x y p out ! k +
     (\<Sum>p\<leftarrow>ps. if fst p + snd p = k then x ! fst p * y ! snd p
      else if fst p + snd p = k + length x then - (x ! fst p * y ! snd p) else 0)"
    using Cons.prems by (intro Cons.IH) simp_all
  finally show ?case
    by (simp add: reference_step_nth [OF Cons.prems(1) p assms(3)])
qed

lemma sum_list_product:
  fixes f :: "'a \<times> 'b \<Rightarrow> int"
  shows "(\<Sum>p\<leftarrow>List.product xs ys. f p) = (\<Sum>a\<leftarrow>xs. \<Sum>b\<leftarrow>ys. f (a, b))"
  by (induction xs) (simp_all add: o_def)

lemma sum_list_upt:
  fixes f :: "nat \<Rightarrow> int"
  shows "(\<Sum>i\<leftarrow>[0..<n]. f i) = (\<Sum>i<n. f i)"
  by (simp add: interv_sum_list_conv_sum_set_nat atLeast0LessThan)

lemma reference_convolution_nth:
  assumes "length y = length x" "k < length x"
  shows "reference_convolution x y ! k = negacyclic x y k"
proof -
  let ?n = "length x"
  have "reference_convolution x y ! k = replicate ?n 0 ! k +
     (\<Sum>p\<leftarrow>List.product [0..<?n] [0..<?n]. if fst p + snd p = k then x ! fst p * y ! snd p
      else if fst p + snd p = k + ?n then - (x ! fst p * y ! snd p) else 0)"
    unfolding reference_convolution_def assms(1)
    using assms(2) by (intro fold_reference_step_nth) auto
  also have "\<dots> = negacyclic x y k"
    using assms(2) by (simp add: sum_list_product sum_list_upt negacyclic_def assms(1) cong: if_cong)
  finally show ?thesis .
qed

lemma length_reference_convolution [simp]: "length (reference_convolution x y) = length x"
  by (simp add: reference_convolution_def)

section \<open>Multiplication in the prime field\<close>

lemma NewPolynomial_power: "NewPolynomial (2 ^ k) = Some (replicate (2 ^ k) 0)"
  by (simp add: NewPolynomial_def isPowerOfTwo_power)

lemma Hadamard_eq:
  assumes "0 < Mod mul" "length a = 2 ^ k" "length b = 2 ^ k"
  shows "Hadamard mul a b = Some (map (\<lambda>i. a ! i * b ! i mod Mod mul) [0..<2 ^ k])"
proof -
  have "for_each [0..<2 ^ k] (\<lambda>i c. do {
            x \<leftarrow> index a i;
            y \<leftarrow> index b i;
            z \<leftarrow> bigMod (x * y) (Mod mul);
            Some (c[i := z]) }) (replicate (2 ^ k) 0)
      = Some (map (\<lambda>j. (\<lambda>i _. a ! i * b ! i mod Mod mul) j (replicate (2 ^ k) (0::int) ! j)) [0..<2 ^ k])"
    using assms by (intro for_each_pointwise_all) simp_all
  then show ?thesis
    using assms by (simp add: Hadamard_def Deg_def NewPolynomial_power)
qed

lemma copy_loop:
  fixes x y a b :: "int list"
  assumes "length x = n" "length y = n" "length a = n" "length b = n"
  shows "for_each [0..<n] (\<lambda>i (a, b). do {
            xi \<leftarrow> index x i;
            yi \<leftarrow> index y i;
            Some (a[i := xi], b[i := yi]) }) (a, b) = Some (x, y)"
proof -
  let ?body = "\<lambda>i (a :: int list, b :: int list). do {
            xi \<leftarrow> index x i;
            yi \<leftarrow> index y i;
            Some (a[i := xi], b[i := yi]) }"
  have upd: "(take c u @ drop c v)[c := u ! c] = take (Suc c) u @ drop (Suc c) v"
    if "c < n" "length u = n" "length v = n" for c and u v :: "int list"
    using that by (simp add: take_Suc_conv_app_nth list_update_append upd_conv_take_nth_drop)
  have "c \<le> n \<Longrightarrow> for_each [0..<c] ?body (a, b) = Some (take c x @ drop c a, take c y @ drop c b)" for c
  proof (induction c)
    case 0
    show ?case
      by simp
  next
    case (Suc c)
    then have c: "c < n" and IH: "for_each [0..<c] ?body (a, b) = Some (take c x @ drop c a, take c y @ drop c b)"
      by simp_all
    have "?body c (take c x @ drop c a, take c y @ drop c b)
        = Some (take (Suc c) x @ drop (Suc c) a, take (Suc c) y @ drop (Suc c) b)"
      using c assms by (simp add: upd)
    then show ?case
      by (simp only: for_each_upt_Suc0 IH Option.bind.simps)
  qed
  from this [of n] show ?thesis
    using assms by simp
qed

lemma ntt_stages_eval:
  assumes "table_ok q (2 ^ k) roots" "length a = 2 ^ k" "i < 2 ^ k"
  shows "ntt_stages q roots 1 k a ! i mod q = peval a (cmod roots (2 ^ k + i)) mod q"
proof -
  have "ntt_inv q roots a 1 (2 ^ k) a"
    by (rule ntt_inv_init)
  then have "ntt_inv q roots a (1 * 2 ^ k) 1 (ntt_stages q roots 1 k a)"
    by (rule ntt_stages_inv [OF assms(1)]) (simp_all add: assms(2))
  then have "ntt_stages q roots 1 k a ! (i * 1 + 0) mod q
      = (\<Sum>l<2 ^ k. a ! (0 + l * 1) * cmod roots (2 ^ k + i) ^ l) mod q"
    using assms(3) unfolding ntt_inv_def by simp
  then show ?thesis
    by (simp add: peval_def assms(2))
qed

lemma peval_reference:
  assumes "length y = length x" "w ^ length x mod q = (- 1) mod q"
  shows "peval (reference_convolution x y) w mod q = (peval x w * peval y w) mod q"
proof -
  have "peval (reference_convolution x y) w = (\<Sum>k<length x. negacyclic x y k * w ^ k)"
    unfolding peval_def by (simp add: reference_convolution_nth [OF assms(1)])
  then show ?thesis
    using negacyclic_eval [OF assms] by simp
qed

lemma Mul_eq:
  assumes mul: "ntt_multiplier mul k" and x: "length x = 2 ^ k" and y: "length y = 2 ^ k"
  shows "Mul mul x y = Some (map (\<lambda>c. c mod Mod mul) (reference_convolution x y))"
proof -
  let ?q = "Mod mul"
  let ?roots = "rootsBitReverse mul"
  let ?X = "ntt_stages ?q ?roots 1 k x"
  let ?Y = "ntt_stages ?q ?roots 1 k y"
  let ?C = "reference_convolution x y"
  let ?H = "map (\<lambda>i. ?X ! i * ?Y ! i mod ?q) [0..<2 ^ k]"
  have wf: "wf_multiplier mul k" and tab: "table_ok ?q (2 ^ k) ?roots"
    using mul by (simp_all add: ntt_multiplier_def)
  have q: "0 < ?q"
    using wf by (simp add: wf_multiplier_def)
  have C: "length ?C = 2 ^ k"
    using x by simp
  have yx: "length y = length x"
    using x y by simp
  have "eqm ?q ?H (ntt_stages ?q ?roots 1 k ?C)"
    unfolding eqm_def
  proof (intro conjI allI impI)
    show "length ?H = length (ntt_stages ?q ?roots 1 k ?C)"
      using C by simp
  next
    fix i
    assume "i < length ?H"
    then have i: "i < 2 ^ k"
      by simp
    define w where "w = cmod ?roots (2 ^ k + i)"
    have "(2::nat) ^ k \<le> 2 ^ k + i" "2 ^ k + i < 2 * 2 ^ k"
      using i by linarith+
    then have "cmod ?roots (2 ^ k + i) ^ (2 ^ k) mod ?q = (- 1) mod ?q"
      by (intro cmod_power [OF tab])
    then have w: "w ^ length x mod ?q = (- 1) mod ?q"
      by (simp add: w_def x)
    have "?H ! i mod ?q = (?X ! i * ?Y ! i) mod ?q"
      using i by simp
    also have "\<dots> = (peval x w * peval y w) mod ?q"
      unfolding w_def
      by (rule mod_mult_cong [OF ntt_stages_eval [OF tab x i] ntt_stages_eval [OF tab y i]])
    also have "\<dots> = peval ?C w mod ?q"
      using peval_reference [OF yx w] by simp
    also have "\<dots> = ntt_stages ?q ?roots 1 k ?C ! i mod ?q"
      unfolding w_def using ntt_stages_eval [OF tab C i] by simp
    finally show "?H ! i mod ?q = ntt_stages ?q ?roots 1 k ?C ! i mod ?q" .
  qed
  then have "INTT mul ?H = INTT mul (ntt_stages ?q ?roots 1 k ?C)"
    by (intro INTT_eqm [OF wf]) simp_all
  also have "\<dots> = Some (map (\<lambda>c. c mod ?q) ?C)"
    using wf C by (rule INTT_NTT_stages)
  finally have intt: "INTT mul ?H = Some (map (\<lambda>c. c mod ?q) ?C)" .
  have final: "for_each [0..<2 ^ k] (\<lambda>i c. do {
            coeff \<leftarrow> index c i;
            coeff \<leftarrow> bigMod coeff ?q;
            Some (c[i := coeff]) }) (map (\<lambda>c. c mod ?q) ?C) = Some (map (\<lambda>c. c mod ?q) (map (\<lambda>c. c mod ?q) ?C))"
    using C by (intro for_each_map) (simp_all add: q)
  have copy: "for_each [0..<2 ^ k] (\<lambda>i (a, b). do {
            xi \<leftarrow> index x i;
            yi \<leftarrow> index y i;
            Some (a[i := xi], b[i := yi]) }) (replicate (2 ^ k) 0, replicate (2 ^ k) 0) = Some (x, y)"
    using x y by (intro copy_loop) simp_all
  have ntx: "NTT mul x = Some ?X" and nty: "NTT mul y = Some ?Y"
    using x y by (simp_all only: NTT_stages [OF wf])
  have had: "Hadamard mul ?X ?Y = Some ?H"
    using x y by (intro Hadamard_eq [OF q]) simp_all
  have lenI: "length (map (\<lambda>c. c mod ?q) ?C) = 2 ^ k"
    using C by simp
  have idem: "map (\<lambda>c. c mod ?q) (map (\<lambda>c. c mod ?q) ?C) = map (\<lambda>c. c mod ?q) ?C"
    by simp
  show ?thesis
    by (simp only: Mul_def Deg_def x y Let_def NewPolynomial_power Option.bind.simps copy
        case_prod_conv ntx nty had intt lenI final idem simp_thms if_False)
qed

lemma NewMultiplier_ntt:
  assumes "isPowerOfTwo n" "ProbablyPrime q" "q mod (2 * int n) = 1"
    and "isPrimitiveRootOfUnity (2 * n) q (findRoot (2 * n) q)"
  obtains mul k where "NewMultiplier findRoot n q = Some mul" "n = 2 ^ k" "ntt_multiplier mul k" "Mod mul = q"
proof -
  obtain mul k where mul: "NewMultiplier findRoot n q = Some mul" "n = 2 ^ k" "wf_multiplier mul k"
    "Mod mul = q" "rootsBitReverse mul = rootsOfUnityBitReverse n (findRoot (2 * n) q) q"
    using NewMultiplier_Some [of n q findRoot, OF assms(1-4)] by metis
  have "findRoot (2 * n) q ^ n mod q = (- 1) mod q"
    using assms(2,4) by (rule primitive_root_half)
  then have "table_ok q (2 ^ k) (rootsOfUnityBitReverse (2 ^ k) (findRoot (2 * n) q) q)"
    unfolding mul(2) by (rule rootsOfUnityBitReverse_table_ok)
  then have "ntt_multiplier mul k"
    using mul(3) by (simp add: ntt_multiplier_def mul(2,4,5))
  then show thesis
    by (rule that [OF mul(1,2) _ mul(4)])
qed

text \<open>C1: for a multiplier built by \<open>NewMultiplier(N, q)\<close> with \<open>N\<close> a power of two and \<open>q\<close> a
  prime with \<open>q \<equiv> 1 (mod 2N)\<close>, and for all \<open>x\<close>, \<open>y\<close> of length \<open>N\<close>, \<open>Mul(x, y)\<close> returns a
  polynomial of length \<open>N\<close> each of whose coefficients is congruent modulo \<open>q\<close> to the
  coefficient of the reference negacyclic convolution (it is its residue in \<open>[0, q)\<close>).\<close>

theorem Mul_reference_convolution:
  assumes "isPowerOfTwo n" "ProbablyPrime q" "q mod (2 * int n) = 1"
    and "isPrimitiveRootOfUnity (2 * n) q (findRoot (2 * n) q)"
    and "length x = n" "length y = n"
  shows "\<exists>mul c. NewMultiplier findRoot n q = Some mul \<and> Mul mul x y = Some c \<and> length c = n \<and>
           c = map (\<lambda>v. v mod q) (reference_convolution x y) \<and>
           (\<forall>i<n. c ! i mod q = reference_convolution x y ! i mod q)"
proof -
  obtain mul k where mul: "NewMultiplier findRoot n q = Some mul" "n = 2 ^ k" "ntt_multiplier mul k" "Mod mul = q"
    using NewMultiplier_ntt [of n q findRoot, OF assms(1-4)] by metis
  have "Mul mul x y = Some (map (\<lambda>c. c mod q) (reference_convolution x y))"
    using mul(3) assms(5,6) unfolding mul(2) mul(4) [symmetric] by (rule Mul_eq)
  with mul(1) assms(5) show ?thesis
    by simp
qed

theorem Mul_reference_convolution_witness:
  "\<exists>mul. NewMultiplier (\<lambda>m q. 2) 2 5 = Some mul \<and> Mul mul [1, 2] [3, 1] = Some [1, 2] \<and>
      reference_convolution [1, 2] [3, 1] = [1, 7]"
proof -
  have "isPowerOfTwo 2" "ProbablyPrime 5" "(5::int) mod (2 * int 2) = 1"
    "isPrimitiveRootOfUnity (2 * 2) 5 ((\<lambda>m q. 2) (2 * 2) 5)" "length [1, 2 :: int] = 2" "length [3, 1 :: int] = 2"
    by code_simp+
  from Mul_reference_convolution [of 2 5 "\<lambda>m q. 2" "[1, 2]" "[3, 1]", OF this]
  have "\<exists>mul. NewMultiplier (\<lambda>m q. 2) 2 5 = Some mul \<and>
     Mul mul [1, 2] [3, 1] = Some (map (\<lambda>v. v mod 5) (reference_convolution [1, 2] [3, 1]))"
    by blast
  moreover have "reference_convolution [1, 2] [3, 1] = [1, 7]"
    by code_simp
  ultimately show ?thesis
    by simp
qed

lemma NewMultiplier_Mod:
  assumes "NewMultiplier findRoot n q = Some mul"
  shows "Mod mul = q" "1 < q"
proof -
  have p: "ProbablyPrime q"
    using assms by (auto simp: NewMultiplier_def split: if_splits)
  then show "1 < q"
    by (rule ProbablyPrime_gt_1)
  show "Mod mul = q"
    using assms by (auto simp: NewMultiplier_def Let_def bind_eq_Some_conv split: if_splits)
qed

lemma final_mod_loop:
  assumes "0 < q"
  shows "for_each [0..<length c] (\<lambda>i c. do {
            coeff \<leftarrow> index c i;
            coeff \<leftarrow> bigMod coeff q;
            Some (c[i := coeff]) }) c = Some (map (\<lambda>v. v mod q) c)"
  using assms by (intro for_each_map) simp_all

lemma Mul_range:
  assumes "0 < Mod mul" "Mul mul x y = Some c"
  shows "\<forall>v\<in>set c. 0 \<le> v \<and> v < Mod mul"
proof -
  obtain c0 where "Some c = Some (map (\<lambda>v. v mod Mod mul) c0)"
    using assms(2) unfolding Mul_def Let_def
    by (auto simp: bind_eq_Some_conv final_mod_loop [OF assms(1)] split: if_splits prod.splits)
  then have "c = map (\<lambda>v. v mod Mod mul) c0"
    by simp
  then show ?thesis
    using assms(1) by auto
qed

section \<open>Symmetric reduction\<close>

lemma symmetricModulus_pos:
  assumes "0 < q"
  shows "symmetricModulus (Some q) p = Some (map (symrep q) p)"
proof -
  have quo: "bigQuo q 2 = Some (q div 2)"
    using assms by (simp add: bigQuo_def)
  have "for_each [0..<length p] (\<lambda>i p. do {
              val \<leftarrow> index p i;
              val \<leftarrow> bigMod val q;
              Some (if val > q div 2 then p[i := val - q]
                    else if val < - (q div 2) then p[i := val + q]
                    else p[i := val]) }) p = Some (map (symrep q) p)"
  proof (rule for_each_map [OF _ refl])
    fix j and b :: "int list"
    assume j: "j < length p" "length b = length p"
    have "0 \<le> b ! j mod q"
      using assms by simp
    moreover have "0 \<le> q div 2"
      using assms by simp
    ultimately have "\<not> b ! j mod q < - (q div 2)"
      by linarith
    then show "(do {
              val \<leftarrow> index b j;
              val \<leftarrow> bigMod val q;
              Some (if val > q div 2 then b[j := val - q]
                    else if val < - (q div 2) then b[j := val + q]
                    else b[j := val]) }) = Some (b[j := symrep q (b ! j)])"
      using j assms by (simp add: symrep_def)
  qed
  then show ?thesis
    by (simp add: symmetricModulus_def quo)
qed

lemma symrep_range:
  assumes "0 < q"
  shows "- q < 2 * symrep q v" "2 * symrep q v \<le> q"
proof -
  have "0 \<le> v mod q" "v mod q < q"
    using assms by simp_all
  moreover have "q \<le> 2 * (q div 2) + 1" "2 * (q div 2) \<le> q"
    by linarith+
  ultimately show "- q < 2 * symrep q v" "2 * symrep q v \<le> q"
    by (auto simp: symrep_def)
qed

lemma symrep_mod: "symrep q v mod q = v mod q"
  by (simp add: symrep_def)

lemma symrep_exact:
  assumes "2 * \<bar>v\<bar> < q"
  shows "symrep q v = v"
proof (cases "0 \<le> v")
  case True
  with assms have "v mod q = v"
    by simp
  moreover have "2 * (q div 2) \<le> q" "q \<le> 2 * (q div 2) + 1"
    by linarith+
  ultimately show ?thesis
    using True assms by (simp add: symrep_def)
next
  case False
  then have "0 \<le> v + q" "v + q < q"
    using assms by linarith+
  then have "(v + q) mod q = v + q"
    by (rule mod_pos_pos_trivial)
  then have m: "v mod q = v + q"
    by (simp only: mod_add_self2)
  have "2 * (q div 2) \<le> q" "q \<le> 2 * (q div 2) + 1"
    by linarith+
  then have "q div 2 < v + q"
    using assms False by linarith
  then show ?thesis
    by (simp add: symrep_def m)
qed

section \<open>The residues returned by the prime-field multiplier\<close>

text \<open>C4, as the program behaves: \<open>Multiplier.Mul\<close> ends with \<open>coeff.Mod(coeff, mul.Mod)\<close>, the
  Euclidean modulus. For a multiplier built by \<open>NewMultiplier(N, q)\<close> and inputs of length
  \<open>N\<close> it returns the non-negative residues \<open>c_i = r_i mod q\<close> of the reference negacyclic
  convolution \<open>r\<close>, each in \<open>[0, q)\<close>. Applied to this result, \<open>Polynomial.Mod(q)\<close> returns
  the symmetric representatives: \<open>c'_i \<equiv> c_i (mod q)\<close> with \<open>-q/2 < c'_i \<le> q/2\<close>.\<close>

theorem Mul_nonnegative_residues_then_Mod:
  assumes "isPowerOfTwo n" "ProbablyPrime q" "q mod (2 * int n) = 1"
    and "isPrimitiveRootOfUnity (2 * n) q (findRoot (2 * n) q)"
    and "length x = n" "length y = n"
  shows "\<exists>mul c c'. NewMultiplier findRoot n q = Some mul \<and> Mul mul x y = Some c \<and>
           c = map (\<lambda>v. v mod q) (reference_convolution x y) \<and>
           (\<forall>i<n. 0 \<le> c ! i \<and> c ! i < q) \<and>
           Polynomial_Mod c (Some q) = Some c' \<and> length c' = n \<and>
           (\<forall>i<n. c' ! i mod q = c ! i mod q \<and> - q < 2 * c' ! i \<and> 2 * c' ! i \<le> q)"
proof -
  obtain mul k where mul: "NewMultiplier findRoot n q = Some mul" "n = 2 ^ k" "ntt_multiplier mul k" "Mod mul = q"
    by (rule NewMultiplier_ntt [of n q findRoot, OF assms(1-4)])
  define c where "c = map (\<lambda>v. v mod q) (reference_convolution x y)"
  have q: "0 < q"
    using ProbablyPrime_gt_1 [OF assms(2)] by simp
  have run: "Mul mul x y = Some c"
    using Mul_eq [OF mul(3), of x y] assms(5,6) by (simp add: c_def mul(2) [symmetric] mul(4))
  have len: "length c = n"
    using assms(5) by (simp add: c_def)
  show ?thesis
  proof (intro exI conjI)
    show "NewMultiplier findRoot n q = Some mul"
      by (rule mul(1))
    show "Mul mul x y = Some c"
      by (rule run)
    show "c = map (\<lambda>v. v mod q) (reference_convolution x y)"
      by (rule c_def)
    show "\<forall>i<n. 0 \<le> c ! i \<and> c ! i < q"
      using q assms(5) by (simp add: c_def)
    show "Polynomial_Mod c (Some q) = Some (map (symrep q) c)"
      unfolding Polynomial_Mod_def using q by (rule symmetricModulus_pos)
    show "length (map (symrep q) c) = n"
      by (simp add: len)
    show "\<forall>i<n. map (symrep q) c ! i mod q = c ! i mod q \<and>
        - q < 2 * map (symrep q) c ! i \<and> 2 * map (symrep q) c ! i \<le> q"
      using symrep_range [OF q] by (simp add: len symrep_mod)
  qed
qed

theorem Mul_nonnegative_residues_then_Mod_witness:
  "\<exists>mul c c'. NewMultiplier (\<lambda>m q. 2) 2 5 = Some mul \<and> Mul mul [1, 0] [3, 4] = Some c \<and>
           c = map (\<lambda>v. v mod 5) (reference_convolution [1, 0] [3, 4]) \<and>
           (\<forall>i<2. 0 \<le> c ! i \<and> c ! i < 5) \<and>
           Polynomial_Mod c (Some 5) = Some c' \<and> length c' = 2 \<and>
           (\<forall>i<2. c' ! i mod 5 = c ! i mod 5 \<and> - 5 < 2 * c' ! i \<and> 2 * c' ! i \<le> 5)"
proof -
  have "isPowerOfTwo 2" "ProbablyPrime 5" "(5::int) mod (2 * int 2) = 1"
    "isPrimitiveRootOfUnity (2 * 2) 5 ((\<lambda>m q. 2) (2 * 2) 5)" "length [1, 0 :: int] = 2" "length [3, 4 :: int] = 2"
    by code_simp+
  from Mul_nonnegative_residues_then_Mod [of 2 5 "\<lambda>m q. 2" "[1, 0]" "[3, 4]", OF this]
  show ?thesis .
qed

text \<open>C4 as stated fails: modulo 5 the product of \<open>1\<close> and \<open>3 + 4X\<close> is returned as \<open>[3, 4]\<close>, and
  neither coefficient is at most \<open>5/2\<close>; the symmetric representatives would be \<open>[-2, -1]\<close>.\<close>

theorem Mul_symmetric_counterexample:
  "Mul \<lparr>N = 2, Mod = 5, nInvQ = 3, rootsBitReverse = [1, 2], invRootsBitReverse = [1, 3]\<rparr> [1, 0] [3, 4] = Some [3, 4] \<and>
   NewMultiplier (\<lambda>m q. 2) 2 5 = Some \<lparr>N = 2, Mod = 5, nInvQ = 3, rootsBitReverse = [1, 2], invRootsBitReverse = [1, 3]\<rparr> \<and>
   \<not> (2 * (3::int) \<le> 5)"
  by code_simp

section \<open>The CRT multiplier\<close>

lemma ProbablyPrime_distinct_coprime:
  assumes "ProbablyPrime p" "ProbablyPrime q" "p \<noteq> q"
  shows "coprime p q"
proof (rule ProbablyPrime_coprime [OF assms(1)])
  show "\<not> p dvd q"
  proof
    assume "p dvd q"
    moreover have "0 \<le> p"
      using ProbablyPrime_gt_1 [OF assms(1)] by simp
    ultimately have "p = 1 \<or> p = q"
      using ProbablyPrime_divisors [OF assms(2)] by blast
    with assms(3) ProbablyPrime_gt_1 [OF assms(1)] show False
      by simp
  qed
qed

lemma garner_mod_p: "garner p pInv a b mod p = a mod p"
  by (simp add: garner_def)

lemma garner_mod_q:
  assumes "p * pInv mod q = 1 mod q"
  shows "garner p pInv a b mod q = b mod q"
proof -
  have "garner p pInv a b = (b - a) * (p * pInv) + a"
    by (simp add: garner_def mult.commute mult.left_commute)
  moreover have "((b - a) * (p * pInv) + a) mod q = ((b - a) * 1 + a) mod q"
    by (rule mod_add_cong [OF mod_mult_cong [OF refl _] refl]) (simp add: assms)
  ultimately show ?thesis
    by simp
qed

lemma chinese_remainder_unique:
  fixes p q z c :: int
  assumes "coprime p q" "z mod p = c mod p" "z mod q = c mod q"
  shows "z mod (p * q) = c mod (p * q)"
proof -
  have "p dvd z - c" "q dvd z - c"
    using assms(2,3) by (simp_all add: mod_eq_dvd_iff)
  then have "p * q dvd z - c"
    using assms(1) by (rule divides_mult)
  then show ?thesis
    by (simp add: mod_eq_dvd_iff)
qed

lemma garner_bounds:
  assumes "0 \<le> a" "a < p" "0 \<le> b" "b < q" "0 \<le> pInv" "pInv < q"
  shows "- (p * p * q) < garner p pInv a b" "garner p pInv a b < p * q * q"
proof -
  have p: "0 < p" and q: "0 < q"
    using assms by linarith+
  have "(b - a) * pInv \<le> q * pInv"
    using assms by (intro mult_right_mono) linarith+
  also have "\<dots> \<le> q * (q - 1)"
    using assms q by (intro mult_left_mono) linarith+
  finally have "(b - a) * pInv * p \<le> q * (q - 1) * p"
    using p by (intro mult_right_mono) linarith+
  then have "garner p pInv a b \<le> q * (q - 1) * p + a"
    by (simp add: garner_def)
  also have "\<dots> < q * (q - 1) * p + p"
    using assms by simp
  also have "\<dots> \<le> q * (q - 1) * p + p * q"
    using p q by simp
  also have "\<dots> = p * q * q"
    by (simp add: algebra_simps)
  finally show "garner p pInv a b < p * q * q" .
  have "- (p * pInv) \<le> (b - a) * pInv"
    using assms by (simp only: mult_minus_left [symmetric]) (intro mult_right_mono, linarith+)
  moreover have "p * pInv \<le> p * (q - 1)"
    using assms p by (intro mult_left_mono) linarith+
  ultimately have "- (p * (q - 1)) \<le> (b - a) * pInv"
    by linarith
  then have "- (p * (q - 1)) * p \<le> (b - a) * pInv * p"
    using p by (intro mult_right_mono) linarith+
  then have "- (p * (q - 1)) * p \<le> garner p pInv a b"
    using assms(1) by (simp add: garner_def)
  moreover have "- (p * p * q) < - (p * (q - 1)) * p"
  proof -
    have "0 < p * p"
      using p by simp
    then have "p * p * (q - 1) < p * p * q"
      by (intro mult_strict_left_mono) simp_all
    then show ?thesis
      by (simp add: algebra_simps)
  qed
  ultimately show "- (p * p * q) < garner p pInv a b"
    by linarith
qed

lemma CRTMultiplier_Mul_eq:
  assumes "isPowerOfTwo n" "ProbablyPrime p" "ProbablyPrime q" "p \<noteq> q"
    and "p mod (2 * int n) = 1" "q mod (2 * int n) = 1"
    and "isPrimitiveRootOfUnity (2 * n) p (findRoot (2 * n) p)"
    and "isPrimitiveRootOfUnity (2 * n) q (findRoot (2 * n) q)"
    and "length x = n" "length y = n"
  obtains m a b where "NewCRTMultiplier findRoot n p q = Some m" "PQ m = p * q"
    "Mul (multiplierP m) x y = Some a" "a = map (\<lambda>c. c mod p) (reference_convolution x y)"
    "Mul (multiplierQ m) x y = Some b" "b = map (\<lambda>c. c mod q) (reference_convolution x y)"
    "CRTMultiplier_Mul m x y = Some (map (\<lambda>i. garner p (pInvQ m) (a ! i) (b ! i)) [0..<n])"
    "p * pInvQ m mod q = 1" "0 \<le> pInvQ m" "pInvQ m < q"
proof -
  obtain mP k where mP: "NewMultiplier findRoot n p = Some mP" "n = 2 ^ k" "ntt_multiplier mP k" "Mod mP = p"
    using NewMultiplier_ntt [of n p findRoot, OF assms(1,2,5,7)] by metis
  obtain mQ k' where mQ: "NewMultiplier findRoot n q = Some mQ" "n = 2 ^ k'" "ntt_multiplier mQ k'" "Mod mQ = q"
    using NewMultiplier_ntt [of n q findRoot, OF assms(1,3,6,8)] by metis
  have q1: "1 < q"
    using assms(3) by (rule ProbablyPrime_gt_1)
  obtain inv where inv: "modularInverse p q = Some inv" "0 \<le> inv" "inv < q" "p * inv mod q = 1"
    using modularInverse_Some [OF ProbablyPrime_distinct_coprime [OF assms(2,3,4)] q1] by metis
  define m where "m = \<lparr> PQ = p * q, crtN = n, pInvQ = inv, multiplierP = mP, multiplierQ = mQ \<rparr>"
  define a where "a = map (\<lambda>c. c mod p) (reference_convolution x y)"
  define b where "b = map (\<lambda>c. c mod q) (reference_convolution x y)"
  have new: "NewCRTMultiplier findRoot n p q = Some m"
    using assms(1-4) inv(1) mP(1) mQ(1) by (simp add: NewCRTMultiplier_def m_def)
  have ma: "Mul (multiplierP m) x y = Some a"
    using Mul_eq [OF mP(3), of x y] assms(9,10) by (simp add: m_def a_def mP(2) [symmetric] mP(4))
  have mb: "Mul (multiplierQ m) x y = Some b"
    using Mul_eq [OF mQ(3), of x y] assms(9,10) by (simp add: m_def b_def mQ(2) [symmetric] mQ(4))
  have la: "length a = n" and lb: "length b = n"
    using assms(9) by (simp_all add: a_def b_def)
  have loop: "for_each [0..<n] (\<lambda>i z. do {
         bi \<leftarrow> index b i;
         ai \<leftarrow> index a i;
         Some (z[i := (bi - ai) * pInvQ m * Mod (multiplierP m) + ai]) }) (replicate n 0)
      = Some (map (\<lambda>j. (\<lambda>i _. garner p (pInvQ m) (a ! i) (b ! i)) j (replicate n (0::int) ! j)) [0..<n])"
    using la lb by (intro for_each_pointwise_all) (simp_all add: garner_def m_def mP(4))
  have np: "NewPolynomial n = Some (replicate n 0)"
    unfolding mP(2) by (rule NewPolynomial_power)
  have run: "CRTMultiplier_Mul m x y = Some (map (\<lambda>i. garner p (pInvQ m) (a ! i) (b ! i)) [0..<n])"
    using loop by (simp add: CRTMultiplier_Mul_def ma mb Let_def Deg_def assms(9) np)
  show thesis
    using new _ ma a_def mb b_def run
    by (rule that) (simp_all add: m_def inv)
qed

text \<open>C2: for distinct primes \<open>p\<close>, \<open>q\<close>, both \<open>\<equiv> 1 (mod 2N)\<close>, and inputs of length \<open>N\<close>, every
  coefficient \<open>z_i\<close> of \<open>CRTMultiplier.Mul(x, y)\<close> satisfies \<open>z_i \<equiv> a_i (mod p)\<close> and
  \<open>z_i \<equiv> b_i (mod q)\<close> for the products \<open>a\<close>, \<open>b\<close> of the two inner multipliers, and is
  congruent modulo \<open>p * q\<close> to the coefficient of the reference negacyclic convolution.\<close>

theorem CRTMultiplier_Mul_reference_convolution:
  assumes "isPowerOfTwo n" "ProbablyPrime p" "ProbablyPrime q" "p \<noteq> q"
    and "p mod (2 * int n) = 1" "q mod (2 * int n) = 1"
    and "isPrimitiveRootOfUnity (2 * n) p (findRoot (2 * n) p)"
    and "isPrimitiveRootOfUnity (2 * n) q (findRoot (2 * n) q)"
    and "length x = n" "length y = n"
  shows "\<exists>m a b z. NewCRTMultiplier findRoot n p q = Some m \<and>
           Mul (multiplierP m) x y = Some a \<and> Mul (multiplierQ m) x y = Some b \<and>
           CRTMultiplier_Mul m x y = Some z \<and> length z = n \<and>
           (\<forall>i<n. z ! i mod p = a ! i mod p \<and> z ! i mod q = b ! i mod q \<and>
                   z ! i mod (p * q) = reference_convolution x y ! i mod (p * q))"
proof -
  obtain m a b where m: "NewCRTMultiplier findRoot n p q = Some m" "PQ m = p * q"
    "Mul (multiplierP m) x y = Some a" "a = map (\<lambda>c. c mod p) (reference_convolution x y)"
    "Mul (multiplierQ m) x y = Some b" "b = map (\<lambda>c. c mod q) (reference_convolution x y)"
    "CRTMultiplier_Mul m x y = Some (map (\<lambda>i. garner p (pInvQ m) (a ! i) (b ! i)) [0..<n])"
    "p * pInvQ m mod q = 1" "0 \<le> pInvQ m" "pInvQ m < q"
    by (rule CRTMultiplier_Mul_eq [of n p q findRoot x y, OF assms])
  define z where "z = map (\<lambda>i. garner p (pInvQ m) (a ! i) (b ! i)) [0..<n]"
  have cop: "coprime p q"
    using assms(2,3,4) by (rule ProbablyPrime_distinct_coprime)
  have q1: "1 < q"
    using assms(3) by (rule ProbablyPrime_gt_1)
  have inv: "p * pInvQ m mod q = 1 mod q"
    using m(8) q1 by simp
  have main: "z ! i mod p = a ! i mod p \<and> z ! i mod q = b ! i mod q \<and>
        z ! i mod (p * q) = reference_convolution x y ! i mod (p * q)" if i: "i < n" for i
  proof -
    have zi: "z ! i = garner p (pInvQ m) (a ! i) (b ! i)"
      using i by (simp add: z_def)
    have zp: "z ! i mod p = a ! i mod p"
      unfolding zi by (rule garner_mod_p)
    have zq: "z ! i mod q = b ! i mod q"
      unfolding zi using inv by (rule garner_mod_q)
    have "a ! i mod p = reference_convolution x y ! i mod p" "b ! i mod q = reference_convolution x y ! i mod q"
      using i assms(9) by (simp_all add: m(4,6))
    with zp zq have "z ! i mod p = reference_convolution x y ! i mod p"
      "z ! i mod q = reference_convolution x y ! i mod q"
      by simp_all
    with cop have "z ! i mod (p * q) = reference_convolution x y ! i mod (p * q)"
      by (rule chinese_remainder_unique)
    with zp zq show ?thesis
      by simp
  qed
  show ?thesis
  proof (intro exI conjI)
    show "NewCRTMultiplier findRoot n p q = Some m"
      by (rule m(1))
    show "Mul (multiplierP m) x y = Some a"
      by (rule m(3))
    show "Mul (multiplierQ m) x y = Some b"
      by (rule m(5))
    show "CRTMultiplier_Mul m x y = Some z"
      unfolding z_def by (rule m(7))
    show "length z = n"
      by (simp add: z_def)
    show "\<forall>i<n. z ! i mod p = a ! i mod p \<and> z ! i mod q = b ! i mod q \<and>
                   z ! i mod (p * q) = reference_convolution x y ! i mod (p * q)"
      using main by blast
  qed
qed

theorem CRTMultiplier_Mul_reference_convolution_witness:
  "\<exists>m a b z. NewCRTMultiplier (\<lambda>m q. if q = (5::int) then 2 else (5::int)) 2 5 13 = Some m \<and>
           Mul (multiplierP m) [1, 2] [7, 3] = Some a \<and> Mul (multiplierQ m) [1, 2] [7, 3] = Some b \<and>
           CRTMultiplier_Mul m [1, 2] [7, 3] = Some z \<and> length z = 2 \<and>
           (\<forall>i<2. z ! i mod 5 = a ! i mod 5 \<and> z ! i mod 13 = b ! i mod 13 \<and>
                   z ! i mod (5 * 13) = reference_convolution [1, 2] [7, 3] ! i mod (5 * 13))"
proof -
  have "isPowerOfTwo 2" "ProbablyPrime 5" "ProbablyPrime 13" "(5::int) \<noteq> 13"
    "(5::int) mod (2 * int 2) = 1" "(13::int) mod (2 * int 2) = 1"
    "isPrimitiveRootOfUnity (2 * 2) 5 ((\<lambda>m q. if q = (5::int) then 2 else (5::int)) (2 * 2) 5)"
    "isPrimitiveRootOfUnity (2 * 2) 13 ((\<lambda>m q. if q = (5::int) then 2 else (5::int)) (2 * 2) 13)"
    "length [1, 2 :: int] = 2" "length [7, 3 :: int] = 2"
    by code_simp+
  from CRTMultiplier_Mul_reference_convolution
    [of 2 5 13 "\<lambda>m q. if q = (5::int) then 2 else (5::int)" "[1, 2]" "[7, 3]", OF this]
  show ?thesis .
qed

lemma garner_reference:
  assumes "coprime p q" "p * pInv mod q = 1 mod q" "a mod p = c mod p" "b mod q = c mod q"
  shows "garner p pInv a b mod (p * q) = c mod (p * q)"
proof -
  have "garner p pInv a b mod p = c mod p"
    using assms(3) by (simp only: garner_mod_p)
  moreover have "garner p pInv a b mod q = c mod q"
    using garner_mod_q [OF assms(2), of a b] assms(4) by simp
  ultimately show ?thesis
    using assms(1) by (intro chinese_remainder_unique)
qed

text \<open>C5, as the program behaves: \<open>CRTMultiplier.Mul\<close> returns the Garner sums
  \<open>z_i = a_i + p * pInvQ * (b_i - a_i)\<close> of the products \<open>a\<close>, \<open>b\<close> of the two inner
  multipliers, where \<open>pInvQ\<close> in \<open>[0, q)\<close> is the inverse of \<open>p\<close> modulo \<open>q\<close>, without any
  reduction; they lie strictly between \<open>- p * p * q\<close> and \<open>p * q * q\<close>. Applied to this
  result, \<open>Polynomial.Mod(PQ)\<close> returns the symmetric representatives of the product:
  \<open>z'_i \<equiv> z_i (mod pq)\<close>, congruent to the reference negacyclic convolution, with
  \<open>-pq/2 < z'_i \<le> pq/2\<close>.\<close>

theorem CRTMultiplier_Mul_garner_sums:
  assumes "isPowerOfTwo n" "ProbablyPrime p" "ProbablyPrime q" "p \<noteq> q"
    and "p mod (2 * int n) = 1" "q mod (2 * int n) = 1"
    and "isPrimitiveRootOfUnity (2 * n) p (findRoot (2 * n) p)"
    and "isPrimitiveRootOfUnity (2 * n) q (findRoot (2 * n) q)"
    and "length x = n" "length y = n"
  shows "\<exists>m a b z z'. NewCRTMultiplier findRoot n p q = Some m \<and> PQ m = p * q \<and>
           0 \<le> pInvQ m \<and> pInvQ m < q \<and> p * pInvQ m mod q = 1 \<and>
           Mul (multiplierP m) x y = Some a \<and> a = map (\<lambda>c. c mod p) (reference_convolution x y) \<and>
           Mul (multiplierQ m) x y = Some b \<and> b = map (\<lambda>c. c mod q) (reference_convolution x y) \<and>
           CRTMultiplier_Mul m x y = Some z \<and>
           z = map (\<lambda>i. a ! i + p * pInvQ m * (b ! i - a ! i)) [0..<n] \<and>
           (\<forall>i<n. - (p * p * q) < z ! i \<and> z ! i < p * q * q) \<and>
           Polynomial_Mod z (Some (PQ m)) = Some z' \<and> length z' = n \<and>
           (\<forall>i<n. z' ! i mod (p * q) = z ! i mod (p * q) \<and>
                   z' ! i mod (p * q) = reference_convolution x y ! i mod (p * q) \<and>
                   - (p * q) < 2 * z' ! i \<and> 2 * z' ! i \<le> p * q)"
proof -
  obtain m a b where m: "NewCRTMultiplier findRoot n p q = Some m" "PQ m = p * q"
    "Mul (multiplierP m) x y = Some a" "a = map (\<lambda>c. c mod p) (reference_convolution x y)"
    "Mul (multiplierQ m) x y = Some b" "b = map (\<lambda>c. c mod q) (reference_convolution x y)"
    "CRTMultiplier_Mul m x y = Some (map (\<lambda>i. garner p (pInvQ m) (a ! i) (b ! i)) [0..<n])"
    "p * pInvQ m mod q = 1" "0 \<le> pInvQ m" "pInvQ m < q"
    by (rule CRTMultiplier_Mul_eq [of n p q findRoot x y, OF assms])
  define z where "z = map (\<lambda>i. a ! i + p * pInvQ m * (b ! i - a ! i)) [0..<n]"
  have g: "garner p (pInvQ m) u v = u + p * pInvQ m * (v - u)" for u v
    by (simp add: garner_def mult.commute mult.left_commute)
  have zg: "z = map (\<lambda>i. garner p (pInvQ m) (a ! i) (b ! i)) [0..<n]"
    by (simp add: z_def g)
  have p1: "1 < p" and q1: "1 < q"
    using assms(2,3) by (simp_all add: ProbablyPrime_gt_1)
  then have pq: "0 < p * q"
    by simp
  have cop: "coprime p q"
    using assms(2,3,4) by (rule ProbablyPrime_distinct_coprime)
  have inv: "p * pInvQ m mod q = 1 mod q"
    using m(8) q1 by simp
  have bounds: "- (p * p * q) < z ! i \<and> z ! i < p * q * q" if i: "i < n" for i
  proof -
    have "0 \<le> a ! i" "a ! i < p" "0 \<le> b ! i" "b ! i < q"
      using i assms(9) p1 q1 by (simp_all add: m(4,6))
    then have "- (p * p * q) < garner p (pInvQ m) (a ! i) (b ! i)"
      "garner p (pInvQ m) (a ! i) (b ! i) < p * q * q"
      using m(9,10) by (simp_all only: garner_bounds)
    then show ?thesis
      using i by (simp add: zg)
  qed
  have ref: "z ! i mod (p * q) = reference_convolution x y ! i mod (p * q)" if i: "i < n" for i
  proof -
    have "a ! i mod p = reference_convolution x y ! i mod p" "b ! i mod q = reference_convolution x y ! i mod q"
      using i assms(9) by (simp_all add: m(4,6))
    with cop inv have "garner p (pInvQ m) (a ! i) (b ! i) mod (p * q) = reference_convolution x y ! i mod (p * q)"
      by (rule garner_reference)
    then show ?thesis
      using i by (simp add: zg)
  qed
  have lz: "length z = n"
    by (simp add: z_def)
  show ?thesis
  proof (intro exI conjI)
    show "NewCRTMultiplier findRoot n p q = Some m"
      by (rule m(1))
    show "PQ m = p * q"
      by (rule m(2))
    show "0 \<le> pInvQ m" "pInvQ m < q" "p * pInvQ m mod q = 1"
      by (rule m(9) m(10) m(8))+
    show "Mul (multiplierP m) x y = Some a"
      by (rule m(3))
    show "a = map (\<lambda>c. c mod p) (reference_convolution x y)"
      by (rule m(4))
    show "Mul (multiplierQ m) x y = Some b"
      by (rule m(5))
    show "b = map (\<lambda>c. c mod q) (reference_convolution x y)"
      by (rule m(6))
    show "CRTMultiplier_Mul m x y = Some z"
      unfolding zg by (rule m(7))
    show "z = map (\<lambda>i. a ! i + p * pInvQ m * (b ! i - a ! i)) [0..<n]"
      by (rule z_def)
    show "\<forall>i<n. - (p * p * q) < z ! i \<and> z ! i < p * q * q"
      using bounds by blast
    show "Polynomial_Mod z (Some (PQ m)) = Some (map (symrep (p * q)) z)"
      unfolding Polynomial_Mod_def m(2) using pq by (rule symmetricModulus_pos)
    show "length (map (symrep (p * q)) z) = n"
      by (simp add: lz)
    show "\<forall>i<n. map (symrep (p * q)) z ! i mod (p * q) = z ! i mod (p * q) \<and>
        map (symrep (p * q)) z ! i mod (p * q) = reference_convolution x y ! i mod (p * q) \<and>
        - (p * q) < 2 * map (symrep (p * q)) z ! i \<and> 2 * map (symrep (p * q)) z ! i \<le> p * q"
      using symrep_range [OF pq] ref by (simp add: lz symrep_mod)
  qed
qed

theorem CRTMultiplier_Mul_garner_sums_witness:
  "\<exists>m a b z z'. NewCRTMultiplier (\<lambda>m q. if q = (5::int) then 2 else (5::int)) 2 5 13 = Some m \<and> PQ m = 5 * 13 \<and>
           0 \<le> pInvQ m \<and> pInvQ m < 13 \<and> 5 * pInvQ m mod 13 = 1 \<and>
           Mul (multiplierP m) [1, 0] [7, 0] = Some a \<and> a = map (\<lambda>c. c mod 5) (reference_convolution [1, 0] [7, 0]) \<and>
           Mul (multiplierQ m) [1, 0] [7, 0] = Some b \<and> b = map (\<lambda>c. c mod 13) (reference_convolution [1, 0] [7, 0]) \<and>
           CRTMultiplier_Mul m [1, 0] [7, 0] = Some z \<and>
           z = map (\<lambda>i. a ! i + 5 * pInvQ m * (b ! i - a ! i)) [0..<2] \<and>
           (\<forall>i<2. - (5 * 5 * 13) < z ! i \<and> z ! i < 5 * 13 * 13) \<and>
           Polynomial_Mod z (Some (PQ m)) = Some z' \<and> length z' = 2 \<and>
           (\<forall>i<2. z' ! i mod (5 * 13) = z ! i mod (5 * 13) \<and>
                   z' ! i mod (5 * 13) = reference_convolution [1, 0] [7, 0] ! i mod (5 * 13) \<and>
                   - (5 * 13) < 2 * z' ! i \<and> 2 * z' ! i \<le> 5 * 13)"
proof -
  have "isPowerOfTwo 2" "ProbablyPrime 5" "ProbablyPrime 13" "(5::int) \<noteq> 13"
    "(5::int) mod (2 * int 2) = 1" "(13::int) mod (2 * int 2) = 1"
    "isPrimitiveRootOfUnity (2 * 2) 5 ((\<lambda>m q. if q = (5::int) then 2 else (5::int)) (2 * 2) 5)"
    "isPrimitiveRootOfUnity (2 * 2) 13 ((\<lambda>m q. if q = (5::int) then 2 else (5::int)) (2 * 2) 13)"
    "length [1, 0 :: int] = 2" "length [7, 0 :: int] = 2"
    by code_simp+
  from CRTMultiplier_Mul_garner_sums
    [of 2 5 13 "\<lambda>m q. if q = (5::int) then 2 else (5::int)" "[1, 0]" "[7, 0]", OF this]
  show ?thesis .
qed

text \<open>C5 as stated fails: over \<open>p = 5\<close>, \<open>q = 13\<close> the product of \<open>1\<close> and \<open>7\<close> is returned as the
  coefficient \<open>202\<close>, which is larger than \<open>65/2\<close>.\<close>

theorem CRTMultiplier_Mul_symmetric_counterexample:
  "Option.bind (NewCRTMultiplier (\<lambda>m q. if q = (5::int) then 2 else (5::int)) 2 5 13)
      (\<lambda>m. CRTMultiplier_Mul m [1, 0] [7, 0]) = Some [202, 0] \<and>
   \<not> (2 * (202::int) \<le> 5 * 13)"
  by code_simp

section \<open>Nearest-integer scaling and Karatsuba at their failing inputs\<close>

text \<open>\<open>ScaleNearest\<close> rejects a zero denominator with a panic.\<close>

lemma ScaleNearest_zero: "ScaleNearest p 0 = None"
  by (simp add: ScaleNearest_def)

text \<open>For denominators of the other sign the program is wrong already at small
  coefficients, and for positive denominators at large ones: the sum \<open>quo + 0.5\<close> is
  rounded to the precision of \<open>aux\<close>, which an odd coefficient of 64 bits fills, so the
  half is rounded to the even neighbour, and a later coefficient longer than the first
  one is rounded when it is read.\<close>

lemma ScaleNearest_large_coefficient:
  "ScaleNearest [9223372036854775809] 1 = Some [9223372036854775810] \<and>
   roundHalfAwayFromZero (of_int 9223372036854775809 / of_int 1) = 9223372036854775809 \<and>
   ScaleNearest [1, 18446744073709551617] 1 = Some [1, 18446744073709551616]"
  by code_simp

text \<open>C8 fails on the program for negative denominators: the program takes the absolute
  value of the coefficient only, adds one half to the signed quotient and truncates
  towards zero. For the coefficients 4 and 6 and the denominator -2 the quotients are
  exactly -2 and -3, and the program returns -1 and -2.\<close>

theorem ScaleNearest_negative_denominator:
  "ScaleNearest [4, 6] (- 2) = Some [- 1, - 2] \<and>
   map (\<lambda>c. roundHalfAwayFromZero (of_int c / of_int (- 2))) [4, 6] = [- 2, - 3]"
  by code_simp

text \<open>C7 fails on the program for \<open>N = 1\<close>: \<open>karatsubaRec\<close> returns a single product for
  inputs of length 1, and \<open>Karatsuba\<close> then reads \<open>karat[0 + 1]\<close>, which is out of range.\<close>

theorem Karatsuba_length_one_panics:
  "karatsubaRec [3] [5] = Some [15] \<and> Karatsuba [3] [5] = None \<and> reference_convolution [3] [5] = [15]"
proof -
  have p: "isPowerOfTwo (Suc 0)"
    by (simp add: isPowerOfTwo.simps [of "Suc 0"])
  have rec: "karatsubaRec [3] [5] = Some [15]"
    by (simp add: karatsubaRec.simps [of "[3]" "[5]"])
  have "Karatsuba [3] [5] = None"
    by (simp add: Karatsuba_def Deg_def p rec index_def)
  moreover have "reference_convolution [3] [5] = [15]"
    by (simp add: reference_convolution_def reference_step_def)
  ultimately show ?thesis
    using rec by simp
qed

theorem Karatsuba_length_one_panics_witness:
  "Karatsuba [3] [5] \<noteq> Some (reference_convolution [3] [5])"
  using Karatsuba_length_one_panics by simp

section \<open>Karatsuba on lengths from two on\<close>

lemma conv_shift:
  fixes a b :: "int list"
  shows "(\<Sum>i<length a. \<Sum>j<length b. if i + j + c = K then a ! i * b ! j else 0)
       = (if c \<le> K then conv a b (K - c) else 0)"
proof (cases "c \<le> K")
  case True
  then have "(i + j + c = K) = (i + j = K - c)" for i j
    by auto
  then show ?thesis
    using True by (simp add: conv_def)
next
  case False
  then have "i + j + c \<noteq> K" for i j
    by auto
  then show ?thesis
    using False by simp
qed

lemma conv_zero_high:
  assumes "length a + length b \<le> Suc K"
  shows "conv a b K = 0"
proof -
  have "i + j \<noteq> K" if "i < length a" "j < length b" for i j
    using that assms by linarith
  then show ?thesis
    by (simp add: conv_def)
qed

lemma sum_split_half:
  fixes f :: "nat \<Rightarrow> int"
  shows "(\<Sum>i<h + h. f i) = (\<Sum>i<h. f i) + (\<Sum>i<h. f (h + i))"
proof -
  have "(\<Sum>i<h + h. f i) = (\<Sum>i\<in>{0..<h}. f i) + (\<Sum>i\<in>{h..<h + h}. f i)"
    by (simp add: atLeast0LessThan [symmetric] sum.atLeastLessThan_concat)
  also have "(\<Sum>i\<in>{h..<h + h}. f i) = (\<Sum>i\<in>{0..<h}. f (h + i))"
    using sum.shift_bounds_nat_ivl [of f 0 h h] by (simp add: add.commute)
  finally show ?thesis
    by (simp add: atLeast0LessThan)
qed

lemma conv_split:
  assumes x: "length x = h + h" and y: "length y = h + h"
  shows "conv x y K = conv (take h x) (take h y) K
      + (if h \<le> K then conv (take h x) (drop h y) (K - h) + conv (drop h x) (take h y) (K - h) else 0)
      + (if h + h \<le> K then conv (drop h x) (drop h y) (K - (h + h)) else 0)"
proof -
  let ?xL = "take h x" and ?xR = "drop h x" and ?yL = "take h y" and ?yR = "drop h y"
  have len: "length ?xL = h" "length ?xR = h" "length ?yL = h" "length ?yR = h"
    using x y by simp_all
  have inner: "(\<Sum>j<h + h. if i + j = K then u * y ! j else 0)
      = (\<Sum>j<h. if i + j = K then u * ?yL ! j else 0) + (\<Sum>j<h. if i + j + h = K then u * ?yR ! j else 0)"
    for i and u :: int
  proof -
    have "(\<Sum>j<h + h. if i + j = K then u * y ! j else 0)
        = (\<Sum>j<h. if i + j = K then u * y ! j else 0) + (\<Sum>j<h. if i + (h + j) = K then u * y ! (h + j) else 0)"
      by (rule sum_split_half)
    also have "(\<Sum>j<h. if i + j = K then u * y ! j else 0) = (\<Sum>j<h. if i + j = K then u * ?yL ! j else 0)"
      by (intro sum.cong refl) simp
    also have "(\<Sum>j<h. if i + (h + j) = K then u * y ! (h + j) else 0)
        = (\<Sum>j<h. if i + j + h = K then u * ?yR ! j else 0)"
      using y by (intro sum.cong refl) (simp add: add.commute add.left_commute)
    finally show ?thesis .
  qed
  have S: "(\<Sum>i<h. \<Sum>j<h. if i + j + c = K then a ! i * b ! j else 0)
      = (if c \<le> K then conv a b (K - c) else 0)"
    if "length a = h" "length b = h" for a b :: "int list" and c
    using conv_shift [where a = a and b = b and c = c and K = K] by (simp only: that)
  have A: "(\<Sum>i<h. \<Sum>j<h + h. if i + j = K then x ! i * y ! j else 0)
      = (\<Sum>i<h. \<Sum>j<h. if i + j + 0 = K then ?xL ! i * ?yL ! j else 0)
      + (\<Sum>i<h. \<Sum>j<h. if i + j + h = K then ?xL ! i * ?yR ! j else 0)"
  proof -
    have "(\<Sum>i<h. \<Sum>j<h + h. if i + j = K then x ! i * y ! j else 0)
        = (\<Sum>i<h. (\<Sum>j<h. if i + j + 0 = K then ?xL ! i * ?yL ! j else 0)
                 + (\<Sum>j<h. if i + j + h = K then ?xL ! i * ?yR ! j else 0))"
    proof (rule sum.cong [OF refl])
      fix i assume "i \<in> {..<h}"
      then have xl: "?xL ! i = x ! i"
        by simp
      show "(\<Sum>j<h + h. if i + j = K then x ! i * y ! j else 0)
          = (\<Sum>j<h. if i + j + 0 = K then ?xL ! i * ?yL ! j else 0)
          + (\<Sum>j<h. if i + j + h = K then ?xL ! i * ?yR ! j else 0)"
        using inner [of i "x ! i"] by (simp only: xl add_0_right)
    qed
    then show ?thesis
      by (simp only: sum.distrib)
  qed
  have B: "(\<Sum>i<h. \<Sum>j<h + h. if h + i + j = K then x ! (h + i) * y ! j else 0)
      = (\<Sum>i<h. \<Sum>j<h. if i + j + h = K then ?xR ! i * ?yL ! j else 0)
      + (\<Sum>i<h. \<Sum>j<h. if i + j + (h + h) = K then ?xR ! i * ?yR ! j else 0)"
  proof -
    have "(\<Sum>i<h. \<Sum>j<h + h. if h + i + j = K then x ! (h + i) * y ! j else 0)
        = (\<Sum>i<h. (\<Sum>j<h. if i + j + h = K then ?xR ! i * ?yL ! j else 0)
                 + (\<Sum>j<h. if i + j + (h + h) = K then ?xR ! i * ?yR ! j else 0))"
    proof (rule sum.cong [OF refl])
      fix i assume "i \<in> {..<h}"
      then have xr: "?xR ! i = x ! (h + i)"
        using x by simp
      have e1: "(h + i + j = K) = (i + j + h = K)" for j
        by auto
      have e2: "(h + i + j + h = K) = (i + j + (h + h) = K)" for j
        by auto
      show "(\<Sum>j<h + h. if h + i + j = K then x ! (h + i) * y ! j else 0)
          = (\<Sum>j<h. if i + j + h = K then ?xR ! i * ?yL ! j else 0)
          + (\<Sum>j<h. if i + j + (h + h) = K then ?xR ! i * ?yR ! j else 0)"
        using inner [of "h + i" "x ! (h + i)"] by (simp only: xr e1 e2)
    qed
    then show ?thesis
      by (simp only: sum.distrib)
  qed
  have "conv x y K = (\<Sum>i<h + h. \<Sum>j<h + h. if i + j = K then x ! i * y ! j else 0)"
    by (simp add: conv_def x y)
  also have "\<dots> = (\<Sum>i<h. \<Sum>j<h + h. if i + j = K then x ! i * y ! j else 0)
                 + (\<Sum>i<h. \<Sum>j<h + h. if h + i + j = K then x ! (h + i) * y ! j else 0)"
    by (rule sum_split_half)
  also have "\<dots> = ((\<Sum>i<h. \<Sum>j<h. if i + j + 0 = K then ?xL ! i * ?yL ! j else 0)
      + (\<Sum>i<h. \<Sum>j<h. if i + j + h = K then ?xL ! i * ?yR ! j else 0))
      + ((\<Sum>i<h. \<Sum>j<h. if i + j + h = K then ?xR ! i * ?yL ! j else 0)
      + (\<Sum>i<h. \<Sum>j<h. if i + j + (h + h) = K then ?xR ! i * ?yR ! j else 0))"
    by (simp only: A B)
  also have "\<dots> = ((if 0 \<le> K then conv ?xL ?yL (K - 0) else 0)
      + (if h \<le> K then conv ?xL ?yR (K - h) else 0))
      + ((if h \<le> K then conv ?xR ?yL (K - h) else 0)
      + (if h + h \<le> K then conv ?xR ?yR (K - (h + h)) else 0))"
    by (simp only: S [OF len(1) len(3)] S [OF len(1) len(4)] S [OF len(2) len(3)] S [OF len(2) len(4)])
  finally show ?thesis
    by simp
qed

lemma length_addSlices [simp]: "length (addSlices a b) = min (length a) (length b)"
  by (simp add: addSlices_def)

lemma length_subSlices [simp]: "length (subSlices a b) = min (length a) (length b)"
  by (simp add: subSlices_def)

lemma addSlices_nth [simp]:
  "i < length a \<Longrightarrow> i < length b \<Longrightarrow> addSlices a b ! i = a ! i + b ! i"
  by (simp add: addSlices_def)

lemma subSlices_nth [simp]:
  "i < length a \<Longrightarrow> i < length b \<Longrightarrow> subSlices a b ! i = a ! i - b ! i"
  by (simp add: subSlices_def)

lemma conv_add_left:
  assumes "length a = length b"
  shows "conv (addSlices a b) c K = conv a c K + conv b c K"
proof -
  have "conv (addSlices a b) c K
      = (\<Sum>i<length a. \<Sum>j<length c. (if i + j = K then a ! i * c ! j else 0) + (if i + j = K then b ! i * c ! j else 0))"
    unfolding conv_def using assms
    by (intro sum.cong) (simp_all add: algebra_simps)
  also have "\<dots> = conv a c K + conv b c K"
    using assms by (simp add: conv_def sum.distrib)
  finally show ?thesis .
qed

lemma conv_add_right:
  assumes "length a = length b"
  shows "conv c (addSlices a b) K = conv c a K + conv c b K"
proof -
  have "conv c (addSlices a b) K
      = (\<Sum>i<length c. \<Sum>j<length a. (if i + j = K then c ! i * a ! j else 0) + (if i + j = K then c ! i * b ! j else 0))"
    unfolding conv_def using assms
    by (intro sum.cong) (simp_all add: algebra_simps)
  also have "\<dots> = conv c a K + conv c b K"
    using assms by (simp add: conv_def sum.distrib)
  finally show ?thesis .
qed

lemma conv_cross:
  assumes "length a = length b" "length c = length d" "length a = length c"
  shows "conv (addSlices a b) (addSlices c d) K - conv b d K - conv a c K = conv a d K + conv b c K"
proof -
  have "conv (addSlices a b) (addSlices c d) K = conv a (addSlices c d) K + conv b (addSlices c d) K"
    using assms(1) by (rule conv_add_left)
  also have "\<dots> = (conv a c K + conv a d K) + (conv b c K + conv b d K)"
    using assms(2) by (simp only: conv_add_right)
  finally show ?thesis
    by simp
qed

declare karatsubaRec.simps [simp del]

lemma copy_replicate:
  "length src = h \<Longrightarrow> copy (replicate h (0::int)) src = src"
  by (simp add: copy_def)

lemma karatsubaRec_conv:
  "length x = 2 ^ k \<Longrightarrow> length y = 2 ^ k \<Longrightarrow>
   karatsubaRec x y = Some (map (conv x y) [0..<(if k = 0 then 1 else 2 * 2 ^ k)])"
proof (induction k arbitrary: x y)
  case 0
  have "conv x y 0 = x ! 0 * y ! 0"
    using 0 by (simp add: conv_def)
  then show ?case
    using 0 by (simp add: karatsubaRec.simps [of x y])
next
  case (Suc k)
  define h :: nat where "h = 2 ^ k"
  define xL xR yL yR where "xL = take h x" and "xR = drop h x" and "yL = take h y" and "yR = drop h y"
  define Z0 Z2 C where "Z0 = conv xL yL" and "Z2 = conv xR yR" and "C = (\<lambda>K. conv xL yR K + conv xR yL K)"
  define m :: nat where "m = (if k = 0 then 1 else 2 * h)"
  have hpos: "0 < h"
    by (simp add: h_def)
  have lx: "length x = h + h" and ly: "length y = h + h"
    using Suc.prems by (simp_all add: h_def)
  have len: "length xL = h" "length xR = h" "length yL = h" "length yR = h"
    using lx ly by (simp_all add: xL_def xR_def yL_def yR_def)
  have len2: "length xL = 2 ^ k" "length xR = 2 ^ k" "length yL = 2 ^ k" "length yR = 2 ^ k"
    "length (addSlices xL xR) = 2 ^ k" "length (addSlices yL yR) = 2 ^ k"
    using len by (simp_all add: h_def)
  have z0: "karatsubaRec xL yL = Some (map Z0 [0..<m])"
    using Suc.IH [OF len2(1) len2(3)] by (simp add: Z0_def m_def h_def)
  have z2: "karatsubaRec xR yR = Some (map Z2 [0..<m])"
    using Suc.IH [OF len2(2) len2(4)] by (simp add: Z2_def m_def h_def)
  have z1: "karatsubaRec (addSlices xL xR) (addSlices yL yR)
      = Some (map (conv (addSlices xL xR) (addSlices yL yR)) [0..<m])"
    using Suc.IH [OF len2(5) len2(6)] by (simp add: m_def h_def)
  have cross: "subSlices (subSlices (map (conv (addSlices xL xR) (addSlices yL yR)) [0..<m]) (map Z2 [0..<m])) (map Z0 [0..<m])
      = map C [0..<m]"
  proof (rule nth_equalityI)
    show "length (subSlices (subSlices (map (conv (addSlices xL xR) (addSlices yL yR)) [0..<m]) (map Z2 [0..<m])) (map Z0 [0..<m]))
        = length (map C [0..<m])"
      by simp
  next
    fix i
    assume "i < length (subSlices (subSlices (map (conv (addSlices xL xR) (addSlices yL yR)) [0..<m]) (map Z2 [0..<m])) (map Z0 [0..<m]))"
    then have i: "i < m"
      by simp
    have "conv (addSlices xL xR) (addSlices yL yR) i - conv xR yR i - conv xL yL i = conv xL yR i + conv xR yL i"
      by (rule conv_cross) (simp_all add: len)
    then show "subSlices (subSlices (map (conv (addSlices xL xR) (addSlices yL yR)) [0..<m]) (map Z2 [0..<m])) (map Z0 [0..<m]) ! i
        = map C [0..<m] ! i"
      using i by (simp add: Z0_def Z2_def C_def)
  qed
  have split: "conv x y K = Z0 K + (if h \<le> K then C (K - h) else 0) + (if h + h \<le> K then Z2 (K - (h + h)) else 0)" for K
    using conv_split [OF lx ly, of K] by (simp add: Z0_def Z2_def C_def xL_def xR_def yL_def yR_def)
  have high: "Z0 K = 0" "Z2 K = 0" "C K = 0" if "h + h \<le> Suc K" for K
    using that by (simp_all add: Z0_def Z2_def C_def conv_zero_high len)
  have pw: "isPowerOfTwo (h + h)"
    using isPowerOfTwo_power [of "Suc k"] by (simp add: h_def mult_2)
  have ne1: "h + h \<noteq> Suc 0"
    using hpos by simp
  have half: "(h + h) div 2 = h"
    by simp
  show ?case
  proof (cases "k = 0")
    case True
    then have h1: "h = 1" and m1: "m = 1"
      by (simp_all add: h_def m_def)
    have c0: "conv (addSlices xL xR) (addSlices yL yR) 0 - Z2 0 - Z0 0 = C 0"
      unfolding Z0_def Z2_def C_def by (rule conv_cross) (simp_all add: len)
    have "karatsubaRec x y = Some [Z0 0, C 0, Z2 0, 0]"
      by (subst karatsubaRec.simps)
        (simp add: Let_def lx ly pw ne1 half z0 [unfolded m1] z1 [unfolded m1] z2 [unfolded m1] c0
          subSlices_def xL_def [symmetric] xR_def [symmetric] yL_def [symmetric] yR_def [symmetric])
    moreover have "conv x y 0 = Z0 0" "conv x y 1 = C 0" "conv x y 2 = Z2 0" "conv x y 3 = 0"
      using high [of 1] high [of 2] high [of 3] by (simp_all add: split h1)
    moreover have "[0..<4] = [0, 1, 2, 3::nat]"
      by (simp add: upt_rec)
    ultimately show ?thesis
      using True by simp
  next
    case False
    then have m2: "m = h + h" and h2: "2 \<le> h"
      using self_le_power [of 2 k] by (simp_all add: m_def h_def)
    have res: "karatsubaRec x y =
        Some (addSlices (map Z0 [0..<h + h]) (replicate h 0 @ take h (map C [0..<h + h]))
            @ addSlices (map Z2 [0..<h + h]) (drop h (map C [0..<h + h]) @ replicate h 0))"
      by (subst karatsubaRec.simps)
        (simp add: Let_def lx ly pw ne1 half z0 [unfolded m2] z1 [unfolded m2] z2 [unfolded m2]
          cross [unfolded m2] copy_replicate
          xL_def [symmetric] xR_def [symmetric] yL_def [symmetric] yR_def [symmetric])
    have "addSlices (map Z0 [0..<h + h]) (replicate h 0 @ take h (map C [0..<h + h]))
            @ addSlices (map Z2 [0..<h + h]) (drop h (map C [0..<h + h]) @ replicate h 0)
        = map (conv x y) [0..<2 * 2 ^ Suc k]"
    proof (rule nth_equalityI)
      show "length (addSlices (map Z0 [0..<h + h]) (replicate h 0 @ take h (map C [0..<h + h]))
            @ addSlices (map Z2 [0..<h + h]) (drop h (map C [0..<h + h]) @ replicate h 0))
          = length (map (conv x y) [0..<2 * 2 ^ Suc k])"
        by (simp add: h_def)
    next
      fix K
      assume "K < length (addSlices (map Z0 [0..<h + h]) (replicate h 0 @ take h (map C [0..<h + h]))
            @ addSlices (map Z2 [0..<h + h]) (drop h (map C [0..<h + h]) @ replicate h 0))"
      then have K: "K < (h + h) + (h + h)"
        by simp
      then have K': "K < 2 * 2 ^ Suc k"
        by (simp add: h_def)
      show "(addSlices (map Z0 [0..<h + h]) (replicate h 0 @ take h (map C [0..<h + h]))
            @ addSlices (map Z2 [0..<h + h]) (drop h (map C [0..<h + h]) @ replicate h 0)) ! K
          = map (conv x y) [0..<2 * 2 ^ Suc k] ! K"
      proof (cases "K < h + h")
        case True
        then have "(addSlices (map Z0 [0..<h + h]) (replicate h 0 @ take h (map C [0..<h + h]))
            @ addSlices (map Z2 [0..<h + h]) (drop h (map C [0..<h + h]) @ replicate h 0)) ! K
          = Z0 K + (replicate h 0 @ take h (map C [0..<h + h])) ! K"
          by (simp add: nth_append)
        also have "(replicate h 0 @ take h (map C [0..<h + h])) ! K = (if h \<le> K then C (K - h) else 0)"
          using True by (simp add: nth_append)
        finally show ?thesis
          using True K' by (simp add: split)
      next
        case False
        define J where "J = K - (h + h)"
        have J: "J < h + h" "K = (h + h) + J"
          using False K by (simp_all add: J_def)
        have "(addSlices (map Z0 [0..<h + h]) (replicate h 0 @ take h (map C [0..<h + h]))
            @ addSlices (map Z2 [0..<h + h]) (drop h (map C [0..<h + h]) @ replicate h 0)) ! K
          = Z2 J + (drop h (map C [0..<h + h]) @ replicate h 0) ! J"
          using J by (simp add: nth_append)
        also have "(drop h (map C [0..<h + h]) @ replicate h 0) ! J = (if J < h then C (h + J) else 0)"
          using J by (simp add: nth_append)
        also have "Z2 J + (if J < h then C (h + J) else 0) = conv x y K"
          using high(1) [of K] high(3) [of "h + J"] J by (simp add: split add.commute)
        finally show ?thesis
          using K' by simp
      qed
    qed
    with res show ?thesis
      using False by simp
  qed
qed

lemma karatsuba_fold_loop:
  assumes "n + n \<le> length karat"
  shows "c \<le> n \<Longrightarrow>
    for_each [0..<c] (\<lambda>i karat. do {
        a \<leftarrow> index karat i;
        b \<leftarrow> index karat (i + n);
        Some (karat[i := a - b]) }) karat
    = Some (map (\<lambda>i. if i < c then karat ! i - karat ! (i + n) else karat ! i) [0..<length karat])"
proof (induction c)
  case 0
  show ?case
    by (simp add: map_nth)
next
  case (Suc c)
  let ?body = "\<lambda>i karat. do {
        a \<leftarrow> index karat i;
        b \<leftarrow> index karat (i + n);
        Some (karat[i := a - b]) }"
  let ?L = "map (\<lambda>i. if i < c then karat ! i - karat ! (i + n) else karat ! i) [0..<length karat]"
  have c: "c < length karat" "c + n < length karat"
    using Suc.prems assms by simp_all
  have IH: "for_each [0..<c] ?body karat = Some ?L"
    using Suc by simp
  have upd: "?L[c := karat ! c - karat ! (c + n)]
      = map (\<lambda>i. if i < Suc c then karat ! i - karat ! (i + n) else karat ! i) [0..<length karat]"
    by (rule nth_equalityI) (auto simp: nth_list_update less_Suc_eq)
  have "for_each [0..<Suc c] ?body karat = Option.bind (for_each [0..<c] ?body karat) (?body c)"
    by (rule for_each_upt_Suc0)
  also have "\<dots> = ?body c ?L"
    by (simp only: IH Option.bind.simps)
  also have "\<dots> = Some (?L[c := karat ! c - karat ! (c + n)])"
    using c by simp
  finally show ?case
    by (simp only: upd)
qed

lemma negacyclic_conv:
  assumes "0 < length x"
  shows "negacyclic x y k = conv x y k - conv x y (k + length x)"
proof -
  have "(if i + j = k then A else if i + j = k + length x then - A else 0)
      = (if i + j = k then A else 0) - (if i + j = k + length x then A else 0)" for i j and A :: int
    using assms by simp
  then show ?thesis
    by (simp only: negacyclic_def conv_def sum_subtractf)
qed

text \<open>From length two on, \<open>Karatsuba\<close> is the reference negacyclic convolution: the length
  one is the only power of two on which it fails.\<close>

lemma Karatsuba_reference:
  assumes x: "length x = 2 ^ Suc k" and y: "length y = 2 ^ Suc k"
  shows "Karatsuba x y = Some (reference_convolution x y)"
proof -
  define n :: nat where "n = 2 ^ Suc k"
  define karat where "karat = map (conv x y) [0..<n + n]"
  have npos: "0 < n"
    by (simp add: n_def)
  have pw: "isPowerOfTwo n"
    unfolding n_def by (rule isPowerOfTwo_power)
  have xn: "length x = n" and yn: "length y = n"
    using x y by (simp_all add: n_def)
  have rec: "karatsubaRec x y = Some karat"
    using karatsubaRec_conv [OF x y] by (simp add: karat_def n_def mult_2)
  have lk: "length karat = n + n"
    by (simp add: karat_def)
  have loop: "for_each [0..<n] (\<lambda>i karat. do {
        a \<leftarrow> index karat i;
        b \<leftarrow> index karat (i + n);
        Some (karat[i := a - b]) }) karat
    = Some (map (\<lambda>i. if i < n then karat ! i - karat ! (i + n) else karat ! i) [0..<n + n])"
    using karatsuba_fold_loop [of n karat n] by (simp add: lk)
  have "take n (map (\<lambda>i. if i < n then karat ! i - karat ! (i + n) else karat ! i) [0..<n + n])
      = reference_convolution x y"
  proof (rule nth_equalityI)
    show "length (take n (map (\<lambda>i. if i < n then karat ! i - karat ! (i + n) else karat ! i) [0..<n + n]))
        = length (reference_convolution x y)"
      by (simp add: xn)
  next
    fix i
    assume "i < length (take n (map (\<lambda>i. if i < n then karat ! i - karat ! (i + n) else karat ! i) [0..<n + n]))"
    then have i: "i < n"
      by simp
    have "reference_convolution x y ! i = negacyclic x y i"
      using i by (intro reference_convolution_nth) (simp_all add: xn yn)
    also have "\<dots> = conv x y i - conv x y (i + n)"
      using negacyclic_conv [of x y i] npos by (simp add: xn)
    finally show "take n (map (\<lambda>i. if i < n then karat ! i - karat ! (i + n) else karat ! i) [0..<n + n]) ! i
        = reference_convolution x y ! i"
      using i by (simp add: karat_def)
  qed
  then show ?thesis
    using pw by (simp add: Karatsuba_def Deg_def xn yn rec loop lk)
qed

text \<open>Hence, from length two on, \<open>Karatsuba\<close> reduced modulo \<open>q\<close> is what \<open>Multiplier.Mul\<close>
  returns.\<close>

lemma Karatsuba_Mul:
  assumes "ProbablyPrime q" "q mod (2 * int (2 ^ Suc k)) = 1"
    and "isPrimitiveRootOfUnity (2 * 2 ^ Suc k) q (findRoot (2 * 2 ^ Suc k) q)"
    and "length x = 2 ^ Suc k" "length y = 2 ^ Suc k"
  shows "\<exists>mul kar. NewMultiplier findRoot (2 ^ Suc k) q = Some mul \<and> Karatsuba x y = Some kar \<and>
           Mul mul x y = Some (map (\<lambda>v. v mod q) kar)"
proof -
  obtain mul k' where mul: "NewMultiplier findRoot (2 ^ Suc k) q = Some mul" "(2::nat) ^ Suc k = 2 ^ k'"
    "ntt_multiplier mul k'" "Mod mul = q"
    by (rule NewMultiplier_ntt [of "2 ^ Suc k" q findRoot, OF isPowerOfTwo_power assms(1-3)])
  have "Mul mul x y = Some (map (\<lambda>v. v mod q) (reference_convolution x y))"
    using Mul_eq [OF mul(3), of x y] assms(4,5) by (simp add: mul(2) [symmetric] mul(4))
  with mul(1) Karatsuba_reference [OF assms(4,5)] show ?thesis
    by blast
qed

section \<open>Primes congruent to one modulo a power of two\<close>

lemma prime_factor_exists:
  "1 < (n::int) \<Longrightarrow> \<exists>p. ProbablyPrime p \<and> p dvd n"
proof (induction "nat n" arbitrary: n rule: less_induct)
  case less
  show ?case
  proof (cases "ProbablyPrime n")
    case True
    then show ?thesis
      by (intro exI [of _ n]) simp
  next
    case False
    with less.prems obtain d where d: "d \<in> {2..<n}" "d dvd n"
      by (auto simp: ProbablyPrime_def)
    then have "nat d < nat n" "1 < d"
      by simp_all
    then obtain p where "ProbablyPrime p" "p dvd d"
      using less.hyps by blast
    with d(2) show ?thesis
      using dvd_trans by blast
  qed
qed

lemma prime_not_dvd_fact:
  assumes "ProbablyPrime p"
  shows "m < nat p \<Longrightarrow> \<not> p dvd fact m"
proof (induction m)
  case 0
  have "1 < p"
    using assms by (rule ProbablyPrime_gt_1)
  then have "\<not> p dvd 1"
    by (simp add: zdvd_not_zless)
  then show ?case
    by simp
next
  case (Suc m)
  have p1: "1 < p"
    using assms by (rule ProbablyPrime_gt_1)
  have m: "\<not> p dvd fact m"
    using Suc by simp
  have "\<not> p dvd int (Suc m)"
  proof
    assume "p dvd int (Suc m)"
    then have "p \<le> int (Suc m)"
      by (intro zdvd_imp_le) simp_all
    with Suc.prems show False
      by linarith
  qed
  with m have "\<not> p dvd int (Suc m) * fact m"
    using ProbablyPrime_dvd_mult [OF assms] by blast
  then show ?case
    by (simp add: fact_Suc)
qed

lemma prime_dvd_choose:
  assumes "ProbablyPrime p" "0 < k" "k < nat p"
  shows "p dvd int (nat p choose k)"
proof -
  let ?P = "nat p"
  have p1: "1 < p"
    using assms(1) by (rule ProbablyPrime_gt_1)
  have "fact k * fact (?P - k) * (?P choose k) = (fact ?P :: nat)"
    using assms(3) by (intro binomial_fact_lemma) simp
  then have eq: "(fact k :: int) * fact (?P - k) * int (?P choose k) = fact ?P"
    by (metis of_nat_fact of_nat_mult)
  have "?P = Suc (?P - 1)"
    using p1 by simp
  then have "(fact ?P :: int) = int ?P * fact (?P - 1)"
    by (metis fact_Suc of_nat_fact of_nat_mult)
  then have "p dvd (fact ?P :: int)"
    using p1 by simp
  then have "p dvd (fact k :: int) * (fact (?P - k) * int (?P choose k))"
    using eq by (simp add: mult.assoc)
  moreover have "\<not> p dvd fact k"
    using assms(1,3) by (rule prime_not_dvd_fact)
  ultimately have "p dvd fact (?P - k) * int (?P choose k)"
    using ProbablyPrime_dvd_mult [OF assms(1)] by blast
  moreover have "\<not> p dvd fact (?P - k)"
    using assms(2,3) by (intro prime_not_dvd_fact [OF assms(1)]) simp
  ultimately show ?thesis
    using ProbablyPrime_dvd_mult [OF assms(1)] by blast
qed

lemma freshman_step:
  assumes "ProbablyPrime p"
  shows "(a + 1) ^ nat p mod p = (a ^ nat p + 1) mod p"
proof -
  have p1: "1 < p"
    using assms by (rule ProbablyPrime_gt_1)
  obtain P' where P: "nat p = Suc P'"
    using p1 by (cases "nat p") simp_all
  let ?g = "\<lambda>k. int (nat p choose k) * a ^ k"
  have "(a + 1) ^ nat p = (\<Sum>k\<le>nat p. ?g k)"
    by (simp add: binomial_ring)
  also have "\<dots> = ?g 0 + (\<Sum>i\<le>P'. ?g (Suc i))"
    unfolding P by (rule sum.atMost_Suc_shift)
  also have "(\<Sum>i\<le>P'. ?g (Suc i)) = (\<Sum>i<P'. ?g (Suc i)) + ?g (Suc P')"
    by (simp add: lessThan_Suc_atMost [symmetric])
  finally have expand: "(a + 1) ^ nat p = 1 + (\<Sum>i<P'. ?g (Suc i)) + a ^ nat p"
    by (simp add: P)
  have "p dvd (\<Sum>i<P'. ?g (Suc i))"
  proof (rule dvd_sum)
    fix i
    assume "i \<in> {..<P'}"
    then have "0 < Suc i" "Suc i < nat p"
      by (simp_all add: P)
    then have "p dvd int (nat p choose Suc i)"
      by (rule prime_dvd_choose [OF assms])
    then show "p dvd ?g (Suc i)"
      by simp
  qed
  then have "(\<Sum>i<P'. ?g (Suc i)) mod p = 0"
    by simp
  then have "(1 + (\<Sum>i<P'. ?g (Suc i)) + a ^ nat p) mod p = (1 + 0 + a ^ nat p) mod p"
    by (metis mod_add_left_eq mod_add_right_eq)
  then show ?thesis
    unfolding expand by (simp add: add.commute)
qed

lemma fermat_power:
  assumes "ProbablyPrime p"
  shows "a ^ nat p mod p = a mod p"
proof -
  have nonneg: "int n ^ nat p mod p = int n mod p" for n
  proof (induction n)
    case 0
    have "0 < p"
      using ProbablyPrime_gt_1 [OF assms] by simp
    then show ?case
      by (simp add: power_0_left)
  next
    case (Suc n)
    have "int (Suc n) ^ nat p mod p = (int n + 1) ^ nat p mod p"
      by (simp add: add.commute)
    also have "\<dots> = (int n ^ nat p + 1) mod p"
      using assms by (rule freshman_step)
    also have "\<dots> = (int n mod p + 1) mod p"
      using Suc by (metis mod_add_left_eq)
    also have "\<dots> = (int n + 1) mod p"
      by (rule mod_add_left_eq)
    also have "\<dots> = int (Suc n) mod p"
      by (simp add: add.commute)
    finally show ?case .
  qed
  have p: "0 < p"
    using ProbablyPrime_gt_1 [OF assms] by simp
  then have "0 \<le> a mod p"
    by simp
  then obtain n where n: "a mod p = int n"
    using nonneg_int_cases by blast
  have "a ^ nat p mod p = (a mod p) ^ nat p mod p"
    by (simp add: power_mod)
  also have "\<dots> = int n mod p"
    unfolding n by (rule nonneg)
  also have "\<dots> = a mod p"
    by (simp add: n [symmetric])
  finally show ?thesis .
qed

lemma fermat_little:
  assumes "ProbablyPrime p" "\<not> p dvd a"
  shows "a ^ nat (p - 1) mod p = 1 mod p"
proof -
  have p1: "1 < p"
    using assms(1) by (rule ProbablyPrime_gt_1)
  then have "nat p = Suc (nat (p - 1))"
    by simp
  then have "a ^ nat p = a * a ^ nat (p - 1)"
    by simp
  moreover have "p dvd a ^ nat p - a"
    using fermat_power [OF assms(1), of a] by (simp add: mod_eq_dvd_iff)
  ultimately have "p dvd a * (a ^ nat (p - 1) - 1)"
    by (simp add: algebra_simps)
  with assms(2) have "p dvd a ^ nat (p - 1) - 1"
    using ProbablyPrime_dvd_mult [OF assms(1)] by blast
  then show ?thesis
    by (simp add: mod_eq_dvd_iff)
qed

lemma power_gcd_one:
  fixes a p :: int
  shows "a ^ m mod p = 1 mod p \<Longrightarrow> a ^ n mod p = 1 mod p \<Longrightarrow> a ^ gcd m n mod p = 1 mod p"
proof (induction m n rule: gcd_nat_induct)
  case (base m)
  then show ?case
    by simp
next
  case (step m n)
  have "a ^ m = (a ^ n) ^ (m div n) * a ^ (m mod n)"
    by (simp add: power_mult [symmetric] power_add [symmetric])
  then have "a ^ m mod p = ((a ^ n mod p) ^ (m div n) mod p) * (a ^ (m mod n) mod p) mod p"
    by (simp add: mod_mult_eq power_mod)
  also have "\<dots> = ((1 mod p) ^ (m div n) mod p) * (a ^ (m mod n) mod p) mod p"
    by (simp only: step.prems(2))
  also have "\<dots> = a ^ (m mod n) mod p"
    by (simp add: power_mod mod_mult_eq)
  finally have "a ^ (m mod n) mod p = 1 mod p"
    using step.prems(1) by simp
  with step.IH step.prems(2) have "a ^ gcd n (m mod n) mod p = 1 mod p"
    by blast
  then show ?case
    by (simp add: gcd.commute [of m n] gcd_red_nat [symmetric])
qed

lemma dvd_power_two:
  fixes g :: nat
  shows "g dvd 2 ^ Suc k \<Longrightarrow> g = 2 ^ Suc k \<or> g dvd 2 ^ k"
proof (induction k arbitrary: g)
  case 0
  then have "g \<noteq> 0"
    by (cases "g = 0") simp_all
  moreover have "g \<le> 2"
    using 0 by (intro dvd_imp_le) simp_all
  ultimately have "g \<le> 2" "g \<noteq> 0"
    by simp_all
  then have "g = 1 \<or> g = 2"
    by linarith
  then show ?case
    by auto
next
  case (Suc k)
  show ?case
  proof (cases "even g")
    case True
    then obtain g' where g: "g = 2 * g'"
      by (auto elim: evenE)
    with Suc.prems have "g' dvd 2 ^ Suc k"
      by simp
    then have "g' = 2 ^ Suc k \<or> g' dvd 2 ^ k"
      by (rule Suc.IH)
    then show ?thesis
      using g by auto
  next
    case False
    then have "coprime g 2"
      by simp
    moreover have "g dvd 2 ^ Suc k * 2"
      using Suc.prems by (simp add: mult.commute)
    ultimately have "g dvd 2 ^ Suc k"
      by (simp only: coprime_dvd_mult_left_iff)
    then show ?thesis ..
  qed
qed

text \<open>Beyond every bound there is a prime \<open>\<equiv> 1 (mod 2^(k+1))\<close>: every prime factor of
  \<open>a^(2^k) + 1\<close>, for \<open>a\<close> twice a factorial, is one.\<close>

lemma prime_in_progression:
  "\<exists>p. ProbablyPrime p \<and> B \<le> p \<and> p mod 2 ^ Suc k = 1"
proof -
  define a :: int where "a = 2 * fact (nat B)"
  define V where "V = a ^ (2 ^ k) + 1"
  have apos: "0 < a"
    by (simp add: a_def)
  then have "0 < a ^ (2 ^ k)"
    by simp
  then have "1 < V"
    by (simp add: V_def)
  then obtain p where p: "ProbablyPrime p" "p dvd V"
    using prime_factor_exists by blast
  have p1: "1 < p"
    using p(1) by (rule ProbablyPrime_gt_1)
  have not_dvd_a: "\<not> p dvd a"
  proof
    assume "p dvd a"
    then have "p dvd a ^ (2 ^ k)"
      by (rule dvd_trans) (rule dvd_power, simp)
    with p(2) have "p dvd V - a ^ (2 ^ k)"
      by (rule dvd_diff)
    then have "p dvd 1"
      by (simp add: V_def)
    with p1 show False
      by (simp add: zdvd_not_zless)
  qed
  have big: "B < p"
  proof (rule ccontr)
    assume "\<not> B < p"
    then have "nat p \<le> nat B" "1 \<le> nat p"
      using p1 by simp_all
    then have "nat p dvd fact (nat B)"
      by (intro dvd_fact)
    then have "int (nat p) dvd int (fact (nat B))"
      by (simp only: int_dvd_int_iff)
    then have "p dvd fact (nat B)"
      using p1 by simp
    then have "p dvd a"
      by (simp add: a_def)
    with not_dvd_a show False ..
  qed
  have "p \<noteq> 2"
    using not_dvd_a by (auto simp: a_def)
  have half: "a ^ (2 ^ k) mod p = (- 1) mod p"
  proof -
    have "p dvd a ^ (2 ^ k) - (- 1)"
      using p(2) by (simp add: V_def)
    then show ?thesis
      by (simp only: mod_eq_dvd_iff)
  qed
  have "a ^ (2 ^ Suc k) = a ^ (2 ^ k) * a ^ (2 ^ k)"
    by (simp add: power_add [symmetric] mult_2)
  then have "a ^ (2 ^ Suc k) mod p = (a ^ (2 ^ k) mod p) * (a ^ (2 ^ k) mod p) mod p"
    by (simp add: mod_mult_eq)
  also have "\<dots> = (- 1) * (- 1) mod p"
    unfolding half by (simp add: mod_mult_eq)
  finally have full: "a ^ (2 ^ Suc k) mod p = 1 mod p"
    by simp
  have fermat: "a ^ nat (p - 1) mod p = 1 mod p"
    using p(1) not_dvd_a by (rule fermat_little)
  define g where "g = gcd (2 ^ Suc k) (nat (p - 1))"
  have ag: "a ^ g mod p = 1 mod p"
    unfolding g_def using full fermat by (rule power_gcd_one)
  have "g dvd 2 ^ Suc k"
    by (simp add: g_def)
  then have "g = 2 ^ Suc k \<or> g dvd 2 ^ k"
    by (rule dvd_power_two)
  moreover have "\<not> g dvd 2 ^ k"
  proof
    assume "g dvd 2 ^ k"
    then obtain c where c: "2 ^ k = g * c"
      by auto
    have "a ^ (2 ^ k) mod p = (a ^ g mod p) ^ c mod p"
      by (simp add: c power_mult power_mod)
    also have "\<dots> = 1 mod p"
      unfolding ag by (simp add: power_mod)
    finally have "(- 1) mod p = 1 mod p"
      using half by simp
    then have "p dvd - 1 - 1"
      by (simp only: mod_eq_dvd_iff)
    then have "p dvd 2"
      by simp
    then have "p \<le> 2"
      by (intro zdvd_imp_le) simp_all
    with p1 \<open>p \<noteq> 2\<close> show False
      by linarith
  qed
  ultimately have "g = 2 ^ Suc k"
    by blast
  then have "2 ^ Suc k dvd nat (p - 1)"
    unfolding g_def by (metis gcd_dvd2)
  then have "int (2 ^ Suc k) dvd int (nat (p - 1))"
    by (simp only: int_dvd_int_iff)
  then have "2 ^ Suc k dvd p - 1"
    using p1 by simp
  then obtain c where c: "p - 1 = 2 ^ Suc k * c"
    by auto
  have "p = 1 + 2 ^ Suc k * c"
    using c by simp
  moreover have "(1 + 2 ^ Suc k * c) mod 2 ^ Suc k = (1::int)"
  proof -
    have "0 < (2::int) ^ k"
      by simp
    then have "(1::int) < 2 * 2 ^ k"
      by linarith
    then have "(1::int) < 2 ^ Suc k"
      by (simp only: power_Suc)
    then show ?thesis
      by simp
  qed
  ultimately have "p mod 2 ^ Suc k = 1"
    by simp
  with p(1) big show ?thesis
    by (intro exI [of _ p]) simp
qed

section \<open>The integer multiplier\<close>

lemma nextPrime_finds:
  "ProbablyPrime (b + int t * step) \<Longrightarrow>
   \<exists>t'. t' \<le> t \<and> nextPrime step b = Some (b + int t' * step) \<and> ProbablyPrime (b + int t' * step)"
proof (induction t arbitrary: b)
  case 0
  then have "nextPrime step b = Some b"
    by (subst nextPrime.simps) simp
  with 0 show ?case
    by simp
next
  case (Suc t)
  show ?case
  proof (cases "ProbablyPrime b")
    case True
    then have "nextPrime step b = Some b"
      by (subst nextPrime.simps) simp
    with True show ?thesis
      by (intro exI [of _ 0]) simp
  next
    case False
    have "ProbablyPrime ((b + step) + int t * step)"
      using Suc.prems by (simp add: algebra_simps)
    then obtain t' where t': "t' \<le> t" "nextPrime step (b + step) = Some ((b + step) + int t' * step)"
      "ProbablyPrime ((b + step) + int t' * step)"
      using Suc.IH by blast
    have "nextPrime step b = nextPrime step (b + step)"
      using False by (subst nextPrime.simps) simp
    with t' show ?thesis
      by (intro exI [of _ "Suc t'"]) (simp add: algebra_simps)
  qed
qed

lemma fold_norm_ge:
  fixes a0 :: int
  assumes "0 \<le> a0"
  shows "a0 \<le> fold (\<lambda>val norm. if \<bar>norm\<bar> < \<bar>val\<bar> then \<bar>val\<bar> else norm) pol a0 \<and>
    (\<forall>v\<in>set pol. \<bar>v\<bar> \<le> fold (\<lambda>val norm. if \<bar>norm\<bar> < \<bar>val\<bar> then \<bar>val\<bar> else norm) pol a0)"
  using assms
proof (induction pol arbitrary: a0)
  case Nil
  show ?case
    by simp
next
  case (Cons v pol)
  let ?f = "\<lambda>val norm. if \<bar>norm\<bar> < \<bar>val\<bar> then \<bar>val\<bar> else (norm::int)"
  define b0 where "b0 = ?f v a0"
  have b0: "0 \<le> b0" "a0 \<le> b0" "\<bar>v\<bar> \<le> b0"
    using Cons.prems by (auto simp: b0_def)
  from Cons.IH [OF b0(1)]
  have "b0 \<le> fold ?f pol b0" "\<forall>u\<in>set pol. \<bar>u\<bar> \<le> fold ?f pol b0"
    by simp_all
  with b0 show ?case
    by (auto simp: b0_def [symmetric])
qed

lemma normInfinite_ge: "v \<in> set pol \<Longrightarrow> \<bar>v\<bar> \<le> normInfinite pol"
  using fold_norm_ge [of 0 pol] by (simp add: normInfinite_def)

lemma normInfinite_nonneg: "0 \<le> normInfinite pol"
  using fold_norm_ge [of 0 pol] by (simp add: normInfinite_def)

lemma negacyclic_inner:
  fixes A :: "nat \<Rightarrow> int"
  assumes "i < n" "k < n"
  shows "(\<Sum>j<n. if i + j = k then A j else if i + j = k + n then - A j else 0)
       = (if i \<le> k then A (k - i) else - A (k + n - i))"
proof (cases "i \<le> k")
  case True
  have "(\<Sum>j<n. if i + j = k then A j else if i + j = k + n then - A j else 0)
      = (\<Sum>j<n. if j = k - i then A j else 0)"
    using True assms by (intro sum.cong refl) auto
  also have "\<dots> = A (k - i)"
  proof -
    have "k - i < n"
      using assms by simp
    then show ?thesis
      by simp
  qed
  finally show ?thesis
    using True by simp
next
  case False
  have "(\<Sum>j<n. if i + j = k then A j else if i + j = k + n then - A j else 0)
      = (\<Sum>j<n. if j = k + n - i then - A j else 0)"
    using False assms by (intro sum.cong refl) auto
  also have "\<dots> = - A (k + n - i)"
  proof -
    have "k + n - i < n"
      using False assms by simp
    then show ?thesis
      by simp
  qed
  finally show ?thesis
    using False by simp
qed

lemma negacyclic_bound:
  assumes "length y = length x" "k < length x"
  shows "\<bar>negacyclic x y k\<bar> \<le> int (length x) * (normInfinite x * normInfinite y)"
proof -
  let ?n = "length x"
  have bnd: "\<bar>x ! i * y ! j\<bar> \<le> normInfinite x * normInfinite y" if "i < ?n" "j < ?n" for i j
  proof -
    have "\<bar>x ! i\<bar> \<le> normInfinite x" "\<bar>y ! j\<bar> \<le> normInfinite y"
      using that assms(1) by (simp_all add: normInfinite_ge)
    then have "\<bar>x ! i\<bar> * \<bar>y ! j\<bar> \<le> normInfinite x * normInfinite y"
      by (intro mult_mono) (simp_all add: normInfinite_nonneg)
    then show ?thesis
      by (simp add: abs_mult)
  qed
  have inner: "\<bar>\<Sum>j<?n. if i + j = k then x ! i * y ! j
        else if i + j = k + ?n then - (x ! i * y ! j) else 0\<bar> \<le> normInfinite x * normInfinite y"
    if i: "i < ?n" for i
  proof (cases "i \<le> k")
    case True
    then have "k - i < ?n"
      using assms(2) by simp
    with True show ?thesis
      using negacyclic_inner [OF i assms(2), of "\<lambda>j. x ! i * y ! j"] bnd [OF i] by simp
  next
    case False
    then have "k + ?n - i < ?n"
      using assms(2) i by simp
    with False show ?thesis
      using negacyclic_inner [OF i assms(2), of "\<lambda>j. x ! i * y ! j"] bnd [OF i] by simp
  qed
  have "\<bar>negacyclic x y k\<bar> \<le> (\<Sum>i<?n. \<bar>\<Sum>j<?n. if i + j = k then x ! i * y ! j
        else if i + j = k + ?n then - (x ! i * y ! j) else 0\<bar>)"
    unfolding negacyclic_def assms(1) by (rule sum_abs)
  also have "\<dots> \<le> (\<Sum>i<?n. normInfinite x * normInfinite y)"
    by (intro sum_mono inner) simp
  also have "\<dots> = int ?n * (normInfinite x * normInfinite y)"
    by simp
  finally show ?thesis .
qed

lemma symrep_mod_idem: "symrep q (v mod q) = symrep q v"
  by (simp add: symrep_def)

lemma ZMultiplier_prime:
  assumes "n = 2 ^ k"
  obtains q where "nextPrime (int (2 * n)) (int (2 * n) * B + 1) = Some q" "ProbablyPrime q"
    "int (2 * n) * B + 1 \<le> q" "q mod (2 * int n) = 1"
proof -
  let ?s = "int (2 * n)"
  have s: "?s = 2 ^ Suc k"
    by (simp add: assms)
  obtain p where p: "ProbablyPrime p" "?s * B + 1 \<le> p" "p mod 2 ^ Suc k = 1"
    using prime_in_progression [of "?s * B + 1" k] by blast
  have s1: "1 < ?s"
  proof -
    have "0 < (2::int) ^ k"
      by simp
    then have "(1::int) < 2 * 2 ^ k"
      by linarith
    then show ?thesis
      by (simp add: assms)
  qed
  have "p mod ?s = 1"
    using p(3) by (simp only: s)
  then have "p mod ?s = 1 mod ?s"
    using s1 by simp
  then have "?s dvd p - 1"
    by (simp only: mod_eq_dvd_iff)
  then have "?s dvd (p - 1) - ?s * B"
    by (rule dvd_diff) simp
  moreover have "(p - 1) - ?s * B = p - (?s * B + 1)"
    by simp
  ultimately have "?s dvd p - (?s * B + 1)"
    by (simp only:)
  then obtain c where c: "p - (?s * B + 1) = ?s * c"
    by auto
  have "0 \<le> ?s * c"
    using p(2) c by linarith
  then have "0 \<le> c"
    using s1 by (simp add: zero_le_mult_iff)
  then have "p = (?s * B + 1) + int (nat c) * ?s"
    using c by (simp add: mult.commute)
  with p(1) have "ProbablyPrime ((?s * B + 1) + int (nat c) * ?s)"
    by simp
  then obtain t where t: "nextPrime ?s (?s * B + 1) = Some ((?s * B + 1) + int t * ?s)"
    "ProbablyPrime ((?s * B + 1) + int t * ?s)"
    using nextPrime_finds by blast
  let ?q = "(?s * B + 1) + int t * ?s"
  have "?s * B + 1 \<le> ?q"
    using s1 by simp
  moreover have "?q mod ?s = 1"
    using s1 by simp
  then have "?q mod (2 * int n) = 1"
    by simp
  ultimately show thesis
    using t by (intro that [of ?q])
qed

text \<open>C6: for a \<open>ZMultiplier\<close> of power-of-two dimension \<open>N\<close> and all \<open>x\<close>, \<open>y\<close> of length \<open>N\<close>,
  the search for the prime ends, at a prime \<open>q \<ge> 2N * norm(x) * norm(y) + 1\<close> with
  \<open>q \<equiv> 1 (mod 2N)\<close>; every coefficient of the negacyclic product is smaller than \<open>q/2\<close> in
  absolute value, and \<open>ZMultiplier.Mul(x, y)\<close> returns exactly the integer negacyclic
  product. The root found for that prime is assumed to meet the contract of
  \<open>FindPrimitiveRootOfUnity\<close>.\<close>

theorem ZMultiplier_Mul_exact:
  assumes "isPowerOfTwo n" "length x = n" "length y = n"
    and "\<And>q. nextPrime (int (2 * n)) (int (2 * n) * normInfinite x * normInfinite y + 1) = Some q
           \<Longrightarrow> isPrimitiveRootOfUnity (2 * n) q (findRoot (2 * n) q)"
  shows "\<exists>m q. NewZMultiplier n = Some m \<and>
           nextPrime (int (2 * n)) (int (2 * n) * normInfinite x * normInfinite y + 1) = Some q \<and>
           ProbablyPrime q \<and> int (2 * n) * normInfinite x * normInfinite y + 1 \<le> q \<and>
           q mod (2 * int n) = 1 \<and>
           (\<forall>i<n. 2 * \<bar>reference_convolution x y ! i\<bar> < q) \<and>
           ZMultiplier_Mul findRoot m x y = Some (reference_convolution x y)"
proof -
  let ?B = "normInfinite x * normInfinite y"
  let ?C = "reference_convolution x y"
  obtain k where k: "n = 2 ^ k"
    using assms(1) isPowerOfTwo_imp by blast
  obtain q where q: "nextPrime (int (2 * n)) (int (2 * n) * ?B + 1) = Some q" "ProbablyPrime q"
    "int (2 * n) * ?B + 1 \<le> q" "q mod (2 * int n) = 1"
    by (rule ZMultiplier_prime [OF k, of ?B])
  have q': "nextPrime (int (2 * n)) (int (2 * n) * normInfinite x * normInfinite y + 1) = Some q"
    using q(1) by (simp add: mult.assoc)
  have root: "isPrimitiveRootOfUnity (2 * n) q (findRoot (2 * n) q)"
    using q' by (rule assms(4))
  obtain modM k' where modM: "NewMultiplier findRoot n q = Some modM" "n = 2 ^ k'" "ntt_multiplier modM k'" "Mod modM = q"
    using NewMultiplier_ntt [of n q findRoot, OF assms(1) q(2,4) root] by metis
  have mul: "Mul modM x y = Some (map (\<lambda>c. c mod q) ?C)"
    using Mul_eq [OF modM(3), of x y] assms(2,3) by (simp add: modM(2) [symmetric] modM(4))
  have yx: "length y = length x"
    using assms(2,3) by simp
  have small: "2 * \<bar>?C ! i\<bar> < q" if i: "i < n" for i
  proof -
    have "\<bar>?C ! i\<bar> = \<bar>negacyclic x y i\<bar>"
      using i assms(2) by (simp add: reference_convolution_nth [OF yx])
    also have "\<dots> \<le> int (length x) * ?B"
      using i assms(2) by (intro negacyclic_bound [OF yx]) simp
    finally have "2 * \<bar>?C ! i\<bar> \<le> int (2 * n) * ?B"
      by (simp add: assms(2))
    with q(3) show ?thesis
      by linarith
  qed
  have q0: "0 < q"
    using ProbablyPrime_gt_1 [OF q(2)] by simp
  have "map (symrep q) (map (\<lambda>c. c mod q) ?C) = ?C"
  proof (intro nth_equalityI)
    show "length (map (symrep q) (map (\<lambda>c. c mod q) ?C)) = length ?C"
      by simp
  next
    fix i
    assume "i < length (map (symrep q) (map (\<lambda>c. c mod q) ?C))"
    then have i: "i < n"
      using assms(2) by simp
    then have "map (symrep q) (map (\<lambda>c. c mod q) ?C) ! i = symrep q (?C ! i)"
      using assms(2) by (simp add: symrep_mod_idem)
    also have "\<dots> = ?C ! i"
      using small [OF i] by (rule symrep_exact)
    finally show "map (symrep q) (map (\<lambda>c. c mod q) ?C) ! i = ?C ! i" .
  qed
  then have red: "Polynomial_Mod (map (\<lambda>c. c mod q) ?C) (Some q) = Some ?C"
    using symmetricModulus_pos [OF q0, of "map (\<lambda>c. c mod q) ?C"] by (simp add: Polynomial_Mod_def)
  have run: "ZMultiplier_Mul findRoot \<lparr> zN = n \<rparr> x y = Some ?C"
    using assms(2,3) q' modM(1) mul red by (simp add: ZMultiplier_Mul_def Deg_def Let_def)
  show ?thesis
  proof (intro exI conjI)
    show "NewZMultiplier n = Some \<lparr> zN = n \<rparr>"
      using assms(1) by (simp add: NewZMultiplier_def)
    show "nextPrime (int (2 * n)) (int (2 * n) * normInfinite x * normInfinite y + 1) = Some q"
      by (rule q')
    show "ProbablyPrime q"
      by (rule q(2))
    show "int (2 * n) * normInfinite x * normInfinite y + 1 \<le> q"
      using q(3) by (simp add: mult.assoc)
    show "q mod (2 * int n) = 1"
      by (rule q(4))
    show "\<forall>i<n. 2 * \<bar>reference_convolution x y ! i\<bar> < q"
      using small by blast
    show "ZMultiplier_Mul findRoot \<lparr> zN = n \<rparr> x y = Some (reference_convolution x y)"
      by (rule run)
  qed
qed

theorem ZMultiplier_Mul_exact_witness:
  "\<exists>m q. NewZMultiplier 2 = Some m \<and>
           nextPrime (int (2 * 2)) (int (2 * 2) * normInfinite [1, - 2] * normInfinite [2, 1] + 1) = Some q \<and>
           ProbablyPrime q \<and> int (2 * 2) * normInfinite [1, - 2] * normInfinite [2, 1] + 1 \<le> q \<and>
           q mod (2 * int 2) = 1 \<and>
           (\<forall>i<2. 2 * \<bar>reference_convolution [1, - 2] [2, 1] ! i\<bar> < q) \<and>
           ZMultiplier_Mul (\<lambda>m q. 4) m [1, - 2] [2, 1] = Some (reference_convolution [1, - 2] [2, 1])"
proof -
  have n: "int (2 * 2) * normInfinite [1, - 2] * normInfinite [2, 1] + 1 = 17"
    by code_simp
  have p: "ProbablyPrime 17"
    by code_simp
  have np: "nextPrime (int (2 * 2)) 17 = Some 17"
    using p by (subst nextPrime.simps) simp
  have r: "isPrimitiveRootOfUnity (2 * 2) 17 4"
    by code_simp
  have h: "isPowerOfTwo 2" "length [1, - 2 :: int] = 2" "length [2, 1 :: int] = 2"
    by code_simp+
  show ?thesis
  proof (rule ZMultiplier_Mul_exact [of 2 "[1, - 2]" "[2, 1]" "\<lambda>m q. 4", OF h])
    fix q
    assume "nextPrime (int (2 * 2)) (int (2 * 2) * normInfinite [1, - 2] * normInfinite [2, 1] + 1) = Some q"
    then have "q = 17"
      unfolding n np by simp
    then show "isPrimitiveRootOfUnity (2 * 2) q ((\<lambda>m q. 4) (2 * 2) q)"
      using r by simp
  qed
qed

section \<open>Sampling: the Hamming-weight sampler\<close>

lemma HammingWeight_filter: "HammingWeight v = length (filter (\<lambda>x. x \<noteq> 0) v)"
proof -
  have "fold (\<lambda>x h. if x \<noteq> 0 then h + 1 else h) v k = k + length (filter (\<lambda>x. x \<noteq> 0) v)" for k :: nat
    by (induction v arbitrary: k) auto
  then show ?thesis
    by (simp add: HammingWeight_def)
qed

lemma filter_update_zero:
  assumes "i < length vec" "vec ! i = (0::int)" "c \<noteq> 0"
  shows "length (filter (\<lambda>x. x \<noteq> 0) (vec[i := c])) = Suc (length (filter (\<lambda>x. x \<noteq> 0) vec))"
proof -
  have a: "vec = take i vec @ vec ! i # drop (Suc i) vec"
    using assms(1) by (rule id_take_nth_drop)
  have b: "vec[i := c] = take i vec @ c # drop (Suc i) vec"
    using assms(1) by (rule upd_conv_take_nth_drop)
  have "length (filter (\<lambda>x. x \<noteq> 0) vec) = length (filter (\<lambda>x. x \<noteq> 0) (take i vec @ vec ! i # drop (Suc i) vec))"
    using a by simp
  then show ?thesis
    using assms(2,3) by (simp add: b)
qed

lemma hwt_inv_step:
  assumes "hwt_inv dimen i vec" "k < dimen" "vec ! k = 0"
  shows "hwt_inv dimen (Suc i) ((if b then vec[k := 1] else vec)[k := - 1])"
proof -
  have eq: "(if b then vec[k := 1] else vec)[k := - 1] = vec[k := - 1]"
    by simp
  have "set (vec[k := - 1]) \<subseteq> insert (- 1) (set vec)"
    by (rule set_update_subset_insert)
  with assms show ?thesis
    unfolding eq hwt_inv_def by (auto simp: filter_update_zero)
qed

declare hwt_loop.simps [simp del]

lemma hwt_loop_inv:
  "hwt_loop dimen hamming i tape vec = Some (Returned r e) \<Longrightarrow> hwt_inv dimen i vec \<Longrightarrow> i \<le> hamming
   \<Longrightarrow> e = None \<and> (\<exists>v. r = Some v \<and> hwt_inv dimen hamming v)"
proof (induction dimen hamming i tape vec rule: hwt_loop.induct)
  case (1 dimen hamming i tape vec)
  note run0 = "1.prems"(1) [unfolded hwt_loop.simps [of dimen hamming i tape vec]]
  show ?case
  proof (cases "i < hamming")
    case False
    with run0 "1.prems"(2,3) show ?thesis
      by auto
  next
    case lt: True
    show ?thesis
    proof (cases tape)
      case Nil
      with lt run0 show ?thesis
        by simp
    next
      case (Cons d tape1)
      show ?thesis
      proof (cases d)
        case None
        with Cons lt run0 show ?thesis
          by simp
      next
        case (Some rv)
        show ?thesis
        proof (cases "dimen = 0")
          case True
          with Some Cons lt run0 show ?thesis
            by simp
        next
          case dpos: False
          define k where "k = rv mod dimen"
          have k: "k < dimen"
            using dpos by (simp add: k_def)
          show ?thesis
          proof (cases "vec ! k \<noteq> 0")
            case True
            with Some Cons lt dpos run0
            have "hwt_loop dimen hamming i tape1 vec = Some (Returned r e)"
              by (simp add: k_def Let_def)
            with "1.IH"(1) [OF lt Cons Some dpos k_def True] "1.prems" show ?thesis
              by simp
          next
            case zero: False
            show ?thesis
            proof (cases tape1)
              case Nil
              with zero Some Cons lt dpos run0 show ?thesis
                by (simp add: k_def Let_def)
            next
              case c2: (Cons d2 tape2)
              show ?thesis
              proof (cases d2)
                case None
                with c2 zero Some Cons lt dpos run0 show ?thesis
                  by (simp add: k_def Let_def)
              next
                case s2: (Some c)
                define vec1 where "vec1 = (if c mod 2 = 0 then vec[k := 1] else vec)"
                define vec2 where "vec2 = vec1[k := - 1]"
                from s2 c2 zero Some Cons lt dpos run0
                have run: "hwt_loop dimen hamming (i + 1) tape2 vec2 = Some (Returned r e)"
                  by (simp add: k_def Let_def vec1_def vec2_def split: if_splits)
                have inv: "hwt_inv dimen (i + 1) vec2"
                  using hwt_inv_step [OF "1.prems"(2) k, of "c mod 2 = 0"] zero
                  by (simp add: vec2_def vec1_def)
                from "1.IH"(2) [OF lt Cons Some dpos k_def zero c2 s2 refl vec1_def vec2_def run inv] lt
                show ?thesis
                  by simp
              qed
            qed
          qed
        qed
      qed
    qed
  qed
qed

text \<open>C9, as the program behaves: a Hamming weight larger than the dimension is answered
  with a returned error value (no vector, the error "impossible hamming weight"); the
  call does not panic and reads nothing from the entropy source.\<close>

theorem HWT_impossible_weight_returns_error:
  "hamming > dimen \<Longrightarrow>
   HWT dimen hamming tape = Some (Returned None (Some ''impossible hamming weight''))"
  by (simp add: HWT_def)

theorem HWT_impossible_weight_returns_error_witness:
  "(2::int) > 1 \<and> HWT 1 2 [Some 0] = Some (Returned None (Some ''impossible hamming weight''))"
  using HWT_impossible_weight_returns_error [of 1 2 "[Some 0]"] by simp

text \<open>C9 as stated fails: with dimension 3 and weight 5 the call returns the pair of
  \<open>nil\<close> and an error value, which is not a panic.\<close>

theorem HWT_impossible_weight_counterexample:
  "HWT 3 5 [] = Some (Returned None (Some ''impossible hamming weight'')) \<and>
   HWT 3 5 [] \<noteq> Some (Panicked ''impossible hamming weight'')"
  by (simp add: HWT_def)

lemma draws_Cons [simp]: "draws (k # idx) (c # coins) = Some k # Some c # draws idx coins"
  by (simp add: draws_def)

lemma draws_Nil [simp]: "draws [] coins = []"
  by (simp add: draws_def)

lemma hwt_loop_done: "\<not> i < hamming \<Longrightarrow> hwt_loop dimen hamming i tape vec = Some (Returned (Some vec) None)"
  by (simp add: hwt_loop.simps [of dimen hamming i tape vec])

lemma hwt_loop_draw:
  assumes "i < hamming" "0 < dimen" "vec ! (k mod dimen) = 0"
  shows "hwt_loop dimen hamming i (Some k # Some c # tape) vec
       = hwt_loop dimen hamming (Suc i) tape (vec[k mod dimen := - 1])"
  using assms by (simp add: hwt_loop.simps [of dimen hamming i "Some k # Some c # tape" vec] Let_def)

lemma hwt_loop_retry:
  assumes "i < hamming" "0 < dimen" "vec ! (k mod dimen) \<noteq> 0"
  shows "hwt_loop dimen hamming i (Some k # tape) vec = hwt_loop dimen hamming i tape vec"
  using assms by (simp add: hwt_loop.simps [of dimen hamming i "Some k # tape" vec] Let_def)

lemma fold_mark:
  "fold (\<lambda>k v. v[k mod d := - 1]) idx vec
   = map (\<lambda>j. if j \<in> (\<lambda>k. k mod d) ` set idx then - 1 else vec ! j) [0..<length vec]"
proof (induction idx arbitrary: vec)
  case Nil
  show ?case
    by (simp add: map_nth)
next
  case (Cons k idx)
  show ?case
    unfolding fold_Cons comp_apply Cons.IH
    by (rule nth_equalityI) (auto simp: nth_list_update)
qed

lemma hwt_loop_fresh:
  "length idx + i = hamming \<Longrightarrow> length coins = length idx \<Longrightarrow> hamming \<le> dimen \<Longrightarrow>
   distinct (map (\<lambda>k. k mod dimen) idx) \<Longrightarrow> \<forall>k\<in>set idx. vec ! (k mod dimen) = 0 \<Longrightarrow>
   hwt_loop dimen hamming i (draws idx coins) vec
     = Some (Returned (Some (fold (\<lambda>k v. v[k mod dimen := - 1]) idx vec)) None)"
proof (induction idx arbitrary: i coins vec)
  case Nil
  then show ?case
    by (simp add: hwt_loop_done)
next
  case (Cons k idx)
  obtain c coins' where coins: "coins = c # coins'"
    using Cons.prems(2) by (cases coins) simp_all
  have i: "i < hamming" and d: "0 < dimen"
    using Cons.prems(1,3) by simp_all
  have zero: "vec ! (k mod dimen) = 0"
    using Cons.prems(5) by simp
  have rest: "\<forall>k'\<in>set idx. vec[k mod dimen := - 1] ! (k' mod dimen) = 0"
  proof
    fix k' assume k': "k' \<in> set idx"
    have "k mod dimen \<notin> (\<lambda>k. k mod dimen) ` set idx"
      using Cons.prems(4) by simp
    with k' have "k' mod dimen \<noteq> k mod dimen"
      by (metis imageI)
    then show "vec[k mod dimen := - 1] ! (k' mod dimen) = 0"
      using Cons.prems(5) k' by simp
  qed
  have "hwt_loop dimen hamming (Suc i) (draws idx coins') (vec[k mod dimen := - 1])
      = Some (Returned (Some (fold (\<lambda>k v. v[k mod dimen := - 1]) idx (vec[k mod dimen := - 1]))) None)"
    using Cons.prems(1,2,3,4) rest by (intro Cons.IH) (simp_all add: coins)
  then show ?case
    by (simp add: coins hwt_loop_draw [OF i d zero])
qed

lemma hwt_inv_zero:
  assumes "hwt_inv dimen i vec" "i < dimen"
  shows "\<exists>k<dimen. vec ! k = 0"
proof (rule ccontr)
  assume "\<not> (\<exists>k<dimen. vec ! k = 0)"
  then have "\<forall>x\<in>set vec. x \<noteq> 0"
    using assms(1) by (auto simp: hwt_inv_def in_set_conv_nth)
  then have "filter (\<lambda>x. x \<noteq> 0) vec = vec"
    by simp
  then show False
    using assms by (simp add: hwt_inv_def)
qed

lemma hwt_loop_finish:
  "hwt_inv dimen i vec \<Longrightarrow> i \<le> hamming \<Longrightarrow> hamming \<le> dimen \<Longrightarrow>
   \<exists>ext v. hwt_loop dimen hamming i ext vec = Some (Returned (Some v) None)"
proof (induction "hamming - i" arbitrary: i vec)
  case 0
  then have "\<not> i < hamming"
    by simp
  then show ?case
    using hwt_loop_done by blast
next
  case (Suc n)
  then have i: "i < hamming" and d: "0 < dimen"
    by simp_all
  then have "i < dimen"
    using Suc.prems(3) by simp
  then obtain k where k: "k < dimen" "vec ! k = 0"
    using hwt_inv_zero [OF Suc.prems(1)] by blast
  have inv: "hwt_inv dimen (Suc i) (vec[k := - 1])"
    using hwt_inv_step [OF Suc.prems(1) k, of False] by simp
  have "n = hamming - Suc i"
    using Suc.hyps(2) by simp
  from Suc.hyps(1) [OF this inv] i Suc.prems(3)
  obtain ext v where "hwt_loop dimen hamming (Suc i) ext (vec[k := - 1]) = Some (Returned (Some v) None)"
    by auto
  then have "hwt_loop dimen hamming i (Some k # Some 0 # ext) vec = Some (Returned (Some v) None)"
    using hwt_loop_draw [OF i d, of vec k 0 ext] k by simp
  then show ?case
    by blast
qed

lemma hwt_loop_extend:
  "hwt_loop dimen hamming i tape vec = None \<Longrightarrow> hwt_inv dimen i vec \<Longrightarrow> i \<le> hamming \<Longrightarrow>
   hamming \<le> dimen \<Longrightarrow>
   \<exists>ext v. hwt_loop dimen hamming i (tape @ ext) vec = Some (Returned (Some v) None)"
proof (induction dimen hamming i tape vec rule: hwt_loop.induct)
  case (1 dimen hamming i tape vec)
  note run0 = "1.prems"(1) [unfolded hwt_loop.simps [of dimen hamming i tape vec]]
  have lt: "i < hamming"
    using run0 by (cases "i < hamming") simp_all
  then have dpos: "dimen \<noteq> 0" and d: "0 < dimen"
    using "1.prems"(4) by simp_all
  show ?case
  proof (cases tape)
    case Nil
    then show ?thesis
      using hwt_loop_finish [OF "1.prems"(2,3,4)] by simp
  next
    case (Cons t tape1)
    show ?thesis
    proof (cases t)
      case None
      with Cons lt run0 show ?thesis
        by simp
    next
      case (Some rv)
      define k where "k = rv mod dimen"
      have k: "k < dimen"
        using dpos by (simp add: k_def)
      show ?thesis
      proof (cases "vec ! k \<noteq> 0")
        case True
        with Some Cons lt dpos run0
        have "hwt_loop dimen hamming i tape1 vec = None"
          by (simp add: k_def Let_def)
        from "1.IH"(1) [OF lt Cons Some dpos k_def True this "1.prems"(2,3,4)]
        obtain ext v where "hwt_loop dimen hamming i (tape1 @ ext) vec = Some (Returned (Some v) None)"
          by blast
        then have "hwt_loop dimen hamming i (tape @ ext) vec = Some (Returned (Some v) None)"
          using hwt_loop_retry [OF lt d, of vec rv "tape1 @ ext"] True by (simp add: Cons Some k_def)
        then show ?thesis
          by blast
      next
        case zero: False
        then have z: "vec ! (rv mod dimen) = 0"
          by (simp add: k_def)
        show ?thesis
        proof (cases tape1)
          case Nil
          have inv: "hwt_inv dimen (Suc i) (vec[k := - 1])"
            using hwt_inv_step [OF "1.prems"(2) k, of False] zero by simp
          have "Suc i \<le> hamming"
            using lt by simp
          from hwt_loop_finish [OF inv this "1.prems"(4)]
          obtain ext v where "hwt_loop dimen hamming (Suc i) ext (vec[k := - 1]) = Some (Returned (Some v) None)"
            by blast
          then have "hwt_loop dimen hamming i (tape @ (Some 0 # ext)) vec = Some (Returned (Some v) None)"
            using hwt_loop_draw [OF lt d z, of 0 ext] by (simp add: Cons Some Nil k_def)
          then show ?thesis
            by blast
        next
          case c2: (Cons t2 tape2)
          show ?thesis
          proof (cases t2)
            case None
            with c2 zero Some Cons lt dpos run0 show ?thesis
              by (simp add: k_def Let_def)
          next
            case s2: (Some c)
            define vec1 where "vec1 = (if c mod 2 = 0 then vec[k := 1] else vec)"
            define vec2 where "vec2 = vec1[k := - 1]"
            have v2: "vec2 = vec[k := - 1]"
              by (simp add: vec2_def vec1_def)
            from s2 c2 zero Some Cons lt dpos run0
            have run: "hwt_loop dimen hamming (i + 1) tape2 vec2 = None"
              by (simp add: k_def Let_def vec1_def vec2_def split: if_splits)
            have inv: "hwt_inv dimen (i + 1) vec2"
              using hwt_inv_step [OF "1.prems"(2) k, of "c mod 2 = 0"] zero
              by (simp add: vec2_def vec1_def)
            from "1.IH"(2) [OF lt Cons Some dpos k_def zero c2 s2 refl vec1_def vec2_def run inv] lt "1.prems"(4)
            obtain ext v where "hwt_loop dimen hamming (i + 1) (tape2 @ ext) vec2 = Some (Returned (Some v) None)"
              by auto
            then have "hwt_loop dimen hamming i (tape @ ext) vec = Some (Returned (Some v) None)"
              using hwt_loop_draw [OF lt d z, of c "tape2 @ ext"] by (simp add: Cons Some c2 s2 k_def v2)
            then show ?thesis
              by blast
          qed
        qed
      qed
    qed
  qed
qed

lemma hwt_loop_panic:
  "hwt_loop dimen hamming i tape vec = Some (Panicked s) \<Longrightarrow> hamming \<le> dimen \<Longrightarrow> None \<in> set tape"
proof (induction dimen hamming i tape vec rule: hwt_loop.induct)
  case (1 dimen hamming i tape vec)
  note run0 = "1.prems"(1) [unfolded hwt_loop.simps [of dimen hamming i tape vec]]
  have lt: "i < hamming"
    using run0 by (cases "i < hamming") simp_all
  then have dpos: "dimen \<noteq> 0"
    using "1.prems"(2) by simp
  show ?case
  proof (cases tape)
    case Nil
    with lt run0 show ?thesis
      by simp
  next
    case (Cons t tape1)
    show ?thesis
    proof (cases t)
      case None
      with Cons show ?thesis
        by simp
    next
      case (Some rv)
      define k where "k = rv mod dimen"
      show ?thesis
      proof (cases "vec ! k \<noteq> 0")
        case True
        with Some Cons lt dpos run0
        have "hwt_loop dimen hamming i tape1 vec = Some (Panicked s)"
          by (simp add: k_def Let_def)
        from "1.IH"(1) [OF lt Cons Some dpos k_def True this "1.prems"(2)] show ?thesis
          by (simp add: Cons)
      next
        case zero: False
        show ?thesis
        proof (cases tape1)
          case Nil
          with zero Some Cons lt dpos run0 show ?thesis
            by (simp add: k_def Let_def)
        next
          case c2: (Cons t2 tape2)
          show ?thesis
          proof (cases t2)
            case None
            with c2 Cons show ?thesis
              by simp
          next
            case s2: (Some c)
            define vec1 where "vec1 = (if c mod 2 = 0 then vec[k := 1] else vec)"
            define vec2 where "vec2 = vec1[k := - 1]"
            from s2 c2 zero Some Cons lt dpos run0
            have run: "hwt_loop dimen hamming (i + 1) tape2 vec2 = Some (Panicked s)"
              by (simp add: k_def Let_def vec1_def vec2_def split: if_splits)
            from "1.IH"(2) [OF lt Cons Some dpos k_def zero c2 s2 refl vec1_def vec2_def run "1.prems"(2)]
            show ?thesis
              by (simp add: Cons c2)
          qed
        qed
      qed
    qed
  qed
qed

text \<open>C10: for \<open>0 \<le> hamming \<le> dim\<close> and every outcome of the entropy source. Whenever \<open>HWT\<close>
  returns, the error is \<open>nil\<close> and the vector has length \<open>dim\<close>, exactly \<open>hamming\<close> non-zero
  entries, and every entry is \<open>0\<close> or \<open>-1\<close>: the value \<open>+1\<close> never appears. \<open>HWT\<close> panics only
  when the entropy source reports an error. A run that is still drawing can always be
  completed: some further draws make it return. And on \<open>hamming\<close> draws of fresh indices,
  each followed by a coin, \<open>HWT\<close> returns the vector that is \<open>-1\<close> exactly at the indices
  drawn, whatever the coins.\<close>

theorem HWT_hamming_weight_all_minus_one:
  assumes "0 \<le> hamming" "hamming \<le> dimen"
  shows "(\<forall>tape r e. HWT dimen hamming tape = Some (Returned r e) \<longrightarrow>
            e = None \<and> (\<exists>vec. r = Some vec \<and> length vec = nat dimen \<and>
              HammingWeight vec = nat hamming \<and> (\<forall>x\<in>set vec. x = 0 \<or> x = - 1))) \<and>
         (\<forall>tape s. HWT dimen hamming tape = Some (Panicked s) \<longrightarrow> None \<in> set tape) \<and>
         (\<forall>tape. HWT dimen hamming tape = None \<longrightarrow>
            (\<exists>ext vec. HWT dimen hamming (tape @ ext) = Some (Returned (Some vec) None))) \<and>
         (\<forall>idx coins. length idx = nat hamming \<and> length coins = nat hamming \<and>
              distinct (map (\<lambda>k. k mod nat dimen) idx) \<longrightarrow>
            HWT dimen hamming (draws idx coins) = Some (Returned (Some
              (map (\<lambda>j. if j \<in> (\<lambda>k. k mod nat dimen) ` set idx then - 1 else 0) [0..<nat dimen])) None))"
proof -
  have unfold: "HWT dimen hamming tape = hwt_loop (nat dimen) (nat hamming) 0 tape (replicate (nat dimen) 0)" for tape
    using assms by (simp add: HWT_def)
  have inv0: "hwt_inv (nat dimen) 0 (replicate (nat dimen) 0)"
    by (simp add: hwt_inv_def)
  have le: "nat hamming \<le> nat dimen"
    using assms by simp
  have A: "e = None \<and> (\<exists>vec. r = Some vec \<and> length vec = nat dimen \<and>
              HammingWeight vec = nat hamming \<and> (\<forall>x\<in>set vec. x = 0 \<or> x = - 1))"
    if "HWT dimen hamming tape = Some (Returned r e)" for tape r e
    using hwt_loop_inv [OF that [unfolded unfold] inv0]
    by (auto simp: hwt_inv_def HammingWeight_filter)
  have B: "None \<in> set tape" if "HWT dimen hamming tape = Some (Panicked s)" for tape s
    using hwt_loop_panic [OF that [unfolded unfold] le] .
  have C: "\<exists>ext vec. HWT dimen hamming (tape @ ext) = Some (Returned (Some vec) None)"
    if "HWT dimen hamming tape = None" for tape
    unfolding unfold using hwt_loop_extend [OF that [unfolded unfold] inv0 _ le] by simp
  have D: "HWT dimen hamming (draws idx coins) = Some (Returned (Some
              (map (\<lambda>j. if j \<in> (\<lambda>k. k mod nat dimen) ` set idx then - 1 else 0) [0..<nat dimen])) None)"
    if "length idx = nat hamming" "length coins = nat hamming" "distinct (map (\<lambda>k. k mod nat dimen) idx)"
    for idx coins
  proof -
    have "hwt_loop (nat dimen) (nat hamming) 0 (draws idx coins) (replicate (nat dimen) 0)
        = Some (Returned (Some (fold (\<lambda>k v. v[k mod nat dimen := - 1]) idx (replicate (nat dimen) 0))) None)"
    proof (rule hwt_loop_fresh)
      show "length idx + 0 = nat hamming" "length coins = length idx" "nat hamming \<le> nat dimen"
        "distinct (map (\<lambda>k. k mod nat dimen) idx)"
        using that le by simp_all
      show "\<forall>k\<in>set idx. replicate (nat dimen) 0 ! (k mod nat dimen) = (0::int)"
      proof
        fix k assume "k \<in> set idx"
        then have "0 < length idx"
          by (cases idx) simp_all
        then have "0 < nat dimen"
          using that(1) le by simp
        then show "replicate (nat dimen) 0 ! (k mod nat dimen) = (0::int)"
          by simp
      qed
    qed
    moreover have "fold (\<lambda>k v. v[k mod nat dimen := - 1]) idx (replicate (nat dimen) 0)
        = map (\<lambda>j. if j \<in> (\<lambda>k. k mod nat dimen) ` set idx then - 1 else (0::int)) [0..<nat dimen]"
      unfolding fold_mark by simp
    ultimately show ?thesis
      by (simp only: unfold)
  qed
  from A B C D show ?thesis
    by blast
qed

theorem HWT_hamming_weight_all_minus_one_witness:
  "HWT 4 2 [Some 1, Some 0, Some 5, Some 3, Some 1] = Some (Returned (Some [0, - 1, 0, - 1]) None) \<and>
   HammingWeight [0, - 1, 0, - 1] = 2 \<and>
   HWT 4 2 (draws [6, 3] [0, 1]) = Some (Returned (Some [0, 0, - 1, - 1]) None)"
proof -
  note inst = HWT_hamming_weight_all_minus_one [of 2 4]
  have le: "(0::int) \<le> 2" "(2::int) \<le> 4"
    by simp_all
  have run: "HWT 4 2 [Some 1, Some 0, Some 5, Some 3, Some 1] = Some (Returned (Some [0, - 1, 0, - 1]) None)"
    by code_simp
  from inst [OF le, THEN conjunct1, rule_format, OF run]
  have w: "HammingWeight [0, - 1, 0, - 1] = 2"
    by simp
  have pre: "length [6, 3 :: nat] = nat 2 \<and> length [0, 1 :: nat] = nat 2 \<and>
      distinct (map (\<lambda>k. k mod nat 4) [6, 3 :: nat])"
    by simp
  have vec: "map (\<lambda>j. if j \<in> (\<lambda>k. k mod nat 4) ` set [6, 3 :: nat] then - 1 else 0) [0..<nat 4] = [0, 0, - 1, - 1 :: int]"
    by code_simp
  from inst [OF le, THEN conjunct2, THEN conjunct2, THEN conjunct2, rule_format, OF pre]
  have "HWT 4 2 (draws [6, 3] [0, 1]) = Some (Returned (Some [0, 0, - 1, - 1]) None)"
    by (simp only: vec)
  with run w show ?thesis
    by simp
qed

end
